theory Spec2Isabelle
  imports Complex_Main "HOL-Library.Word" "HOL-Library.Monad_Syntax"
begin

section \<open>The C library interface of LAMMPS (library.cpp)\<close>

text \<open>
  The development embeds the functions of \<^verbatim>\<open>library.cpp\<close> that move per-atom data
  between the engine and a caller: \<^verbatim>\<open>lammps_get_natoms\<close>, \<^verbatim>\<open>lammps_gather_atoms\<close>,
  \<^verbatim>\<open>lammps_scatter_atoms\<close> and \<^verbatim>\<open>lammps_commands_list\<close>.

  Conventions of the embedding:
  \<^item> \<^verbatim>\<open>bigint\<close> is a 64-bit word and \<^verbatim>\<open>int\<close> data a 32-bit word (sums wrap around);
  \<^item> a \<^verbatim>\<open>double\<close> is an IEEE 754 binary64 number, given by the three fields of its bit
    pattern; two doubles are equal when their bit patterns are;
  \<^item> in gather and scatter, loop counters, tags, offsets and sizes are values of the C
    type \<^verbatim>\<open>int\<close>: they are integers, and an operation whose result does not fit into 32
    bits is undefined behaviour, the value \<open>None\<close> (\<^verbatim>\<open>tagint\<close> is \<^verbatim>\<open>int\<close>, as in the
    default build); positions in the character buffer of \<^verbatim>\<open>lammps_commands_list\<close> are
    natural numbers;
  \<^item> a C array is a list, and every read or write outside it is undefined behaviour,
    the value \<open>None\<close>.
\<close>

subsection \<open>Machine types and C arrays\<close>

type_synonym bigint = "64 word"
type_synonym c_int = "32 word"

text \<open>
  Signed arithmetic on \<^verbatim>\<open>int\<close>: \<open>as_int x\<close> is the result \<open>x\<close> of an operation if it
  fits, and undefined on overflow.
\<close>

definition INT_MAX :: int where
  "INT_MAX = 2147483647"

definition INT_MIN :: int where
  "INT_MIN = - 2147483648"

definition as_int :: "int \<Rightarrow> int option" where
  "as_int x = (if INT_MIN \<le> x \<and> x \<le> INT_MAX then Some x else None)"

text \<open>
  Modelled from the spec: \<^verbatim>\<open>lmptype.h\<close>, which defines \<^verbatim>\<open>MAXSMALLINT\<close>, is not part of the
  sources; the specification calls it the 32-bit signed bound.
\<close>

definition MAXSMALLINT :: int where
  "MAXSMALLINT = 2147483647"

definition static_cast_int :: "bigint \<Rightarrow> c_int" where
  "static_cast_int n = scast n"

definition rd :: "'a list \<Rightarrow> int \<Rightarrow> 'a option" where
  "rd xs i = (if 0 \<le> i \<and> i < int (length xs) then Some (xs ! nat i) else None)"

definition wr :: "'a list \<Rightarrow> int \<Rightarrow> 'a \<Rightarrow> 'a list option" where
  "wr xs i v = (if 0 \<le> i \<and> i < int (length xs) then Some (xs[nat i := v]) else None)"

subsection \<open>Doubles\<close>

text \<open>
  A \<^verbatim>\<open>double\<close> is its bit pattern: the sign bit, the 11 bits of the exponent field and
  the 52 bits of the fraction field.
\<close>

datatype double = Double (negative: bool) (exponent: nat) (fraction: nat)

definition binary64 :: "double \<Rightarrow> bool" where
  "binary64 d \<longleftrightarrow> exponent d < 2048 \<and> fraction d < 2 ^ 52"

definition is_nan :: "double \<Rightarrow> bool" where
  "is_nan d \<longleftrightarrow> exponent d = 2047 \<and> fraction d \<noteq> 0"

definition is_inf :: "double \<Rightarrow> bool" where
  "is_inf d \<longleftrightarrow> exponent d = 2047 \<and> fraction d = 0"

text \<open>
  Every finite double is a multiple of \<open>2 ^ - 1074\<close>, the least positive double.
  \<open>magnitude d\<close> is the absolute value of \<open>d\<close> in this unit, \<open>units d\<close> the value of \<open>d\<close>.
\<close>

definition magnitude :: "double \<Rightarrow> nat" where
  "magnitude d =
     (if exponent d = 0 then fraction d
      else (2 ^ 52 + fraction d) * 2 ^ (exponent d - 1))"

definition units :: "double \<Rightarrow> int" where
  "units d = (if negative d then - int (magnitude d) else int (magnitude d))"

text \<open>
  Rounding to nearest, ties to even. \<open>shift a\<close> is the number of low bits that
  \<open>a \<ge> 2 ^ 53\<close> has too many for a significand of 53 bits; \<open>round_units s a\<close> is the
  double of sign \<open>s\<close> nearest to \<open>a\<close> units, \<open>a > 0\<close>, and infinity on overflow.
\<close>

fun shift :: "nat \<Rightarrow> nat" where
  "shift a = (if a < 2 ^ 53 then 0 else Suc (shift (a div 2)))"

declare shift.simps [simp del]

definition round_units :: "bool \<Rightarrow> nat \<Rightarrow> double" where
  "round_units s a =
     (if a < 2 ^ 52 then Double s 0 a
      else if a < 2 ^ 53 then Double s 1 (a - 2 ^ 52)
      else
        let k = shift a;
            q = a div 2 ^ k;
            r = a mod 2 ^ k;
            half = 2 ^ (k - 1);
            q = (if half < r \<or> (r = half \<and> odd q) then q + 1 else q);
            k = (if q = 2 ^ 53 then k + 1 else k);
            q = (if q = 2 ^ 53 then 2 ^ 52 else q)
        in if 2047 \<le> k + 1 then Double s 2047 0 else Double s (k + 1) (q - 2 ^ 52))"

text \<open>
  The sum of two doubles. A NaN operand is returned with its quiet bit set; the sum of
  two infinities of opposite sign is the default NaN (the choices of x86-64). An exact
  sum of zero is \<open>+0\<close> unless both operands are negative.
\<close>

definition quiet :: "double \<Rightarrow> double" where
  "quiet d =
     Double (negative d) 2047
       (if fraction d < 2 ^ 51 then fraction d + 2 ^ 51 else fraction d)"

definition fadd :: "double \<Rightarrow> double \<Rightarrow> double" where
  "fadd x y =
     (if is_nan x then quiet x
      else if is_nan y then quiet y
      else if is_inf x then
        (if is_inf y \<and> negative x \<noteq> negative y then Double True 2047 (2 ^ 51) else x)
      else if is_inf y then y
      else
        let s = units x + units y in
        if s = 0 then Double (negative x \<and> negative y) 0 0
        else round_units (s < 0) (nat \<bar>s\<bar>))"

text \<open>\<^verbatim>\<open>0.0\<close> and \<^verbatim>\<open>+\<close> on doubles.\<close>

instantiation double :: "{zero, plus}"
begin

definition zero_double :: double where
  "zero_double = Double False 0 0"

definition plus_double :: "double \<Rightarrow> double \<Rightarrow> double" where
  "plus_double x y = fadd x y"

instance ..

end

text \<open>
  A double that is neither a NaN nor the negative zero: adding \<^verbatim>\<open>0.0\<close> to it gives
  back its bit pattern.
\<close>

definition ordinary :: "double \<Rightarrow> bool" where
  "ordinary d \<longleftrightarrow> binary64 d \<and> \<not> is_nan d \<and> d \<noteq> Double True 0 0"

text \<open>
  The double of an integer \<open>n\<close> with \<open>0 \<le> n < 2 ^ 53\<close>, to write down examples;
  \<open>bits n\<close> is the number of binary digits of \<open>n\<close>.
\<close>

fun bits :: "nat \<Rightarrow> nat" where
  "bits n = (if n = 0 then 0 else Suc (bits (n div 2)))"

declare bits.simps [simp del]

definition dbl :: "int \<Rightarrow> double" where
  "dbl n =
     (if n \<le> 0 then 0
      else Double False (1022 + bits (nat n))
             ((nat n - 2 ^ (bits (nat n) - 1)) * 2 ^ (53 - bits (nat n))))"

subsection \<open>The engine state seen by the interface\<close>

text \<open>
  \<^verbatim>\<open>Atom::extract\<close> returns an untyped pointer that the caller casts according to
  \<^verbatim>\<open>type\<close> and \<^verbatim>\<open>count\<close>. The storage behind the pointer has one of four shapes; a cast
  to another shape is undefined behaviour.
\<close>

datatype per_atom =
    IntVector "c_int list"
  | IntArray "c_int list list"
  | DoubleVector "double list"
  | DoubleArray "double list list"

datatype buffer = IntData "c_int list" | DoubleData "double list"

text \<open>
  The class \<^verbatim>\<open>Atom\<close> is not part of the sources. Its data members are fields; the
  results of its member functions \<^verbatim>\<open>tag_consecutive()\<close>, \<^verbatim>\<open>extract(name)\<close> (the field
  \<open>extract_atom\<close>) and \<^verbatim>\<open>map(tag)\<close> (the field \<open>map_atom\<close>) are parameters of the
  state.
\<close>

record Atom =
  natoms :: bigint
  tag_enable :: int
  tag_consecutive :: int
  map_style :: int
  nlocal :: int
  tag :: "int list"
  extract_atom :: "string \<Rightarrow> per_atom option"
  map_atom :: "int \<Rightarrow> int"

record Comm =
  me :: int

record LAMMPS =
  atom :: Atom
  comm :: Comm

subsection \<open>\<^verbatim>\<open>lammps_get_natoms\<close>\<close>

definition lammps_get_natoms :: "LAMMPS \<Rightarrow> c_int" where
  "lammps_get_natoms lmp =
     (if sint (natoms (atom lmp)) > MAXSMALLINT then 0
      else static_cast_int (natoms (atom lmp)))"

text \<open>A state of which only the atom count matters.\<close>

definition atoms_only :: "bigint \<Rightarrow> LAMMPS" where
  "atoms_only n =
     \<lparr>atom = \<lparr>natoms = n, tag_enable = 1, tag_consecutive = 1, map_style = 1, nlocal = 0,
        tag = [], extract_atom = (\<lambda>_. None), map_atom = (\<lambda>_. - 1)\<rparr>,
      comm = \<lparr>me = 0\<rparr>\<rparr>"

subsection \<open>Casting the extracted pointer and the caller's buffer\<close>

text \<open>
  The source casts \<^verbatim>\<open>vptr\<close> to \<^verbatim>\<open>int *\<close>, \<^verbatim>\<open>int **\<close>, \<^verbatim>\<open>double *\<close> or \<^verbatim>\<open>double **\<close> and
  \<^verbatim>\<open>data\<close> to \<^verbatim>\<open>int *\<close> or \<^verbatim>\<open>double *\<close>. A cast that does not fit the storage is
  undefined behaviour.
\<close>

fun int_vector :: "per_atom \<Rightarrow> c_int list option" where
  "int_vector (IntVector v) = Some v"
| "int_vector _ = None"

fun int_array :: "per_atom \<Rightarrow> c_int list list option" where
  "int_array (IntArray a) = Some a"
| "int_array _ = None"

fun double_vector :: "per_atom \<Rightarrow> double list option" where
  "double_vector (DoubleVector v) = Some v"
| "double_vector _ = None"

fun double_array :: "per_atom \<Rightarrow> double list list option" where
  "double_array (DoubleArray a) = Some a"
| "double_array _ = None"

fun int_data :: "buffer \<Rightarrow> c_int list option" where
  "int_data (IntData d) = Some d"
| "int_data _ = None"

fun double_data :: "buffer \<Rightarrow> double list option" where
  "double_data (DoubleData d) = Some d"
| "double_data _ = None"

subsection \<open>\<^verbatim>\<open>lammps_gather_atoms\<close>\<close>

text \<open>
  The loops of the source. \<open>gather_vector tg vector n copy\<close> is \<^verbatim>\<open>copy\<close> after the
  iterations \<open>i = 0, \<dots>, n - 1\<close> of
  \<^verbatim>\<open>for (i = 0; i < nlocal; i++) copy[tag[i]-1] = vector[i];\<close>
\<close>

primrec gather_vector :: "int list \<Rightarrow> 'a list \<Rightarrow> nat \<Rightarrow> 'a list \<Rightarrow> 'a list option" where
  "gather_vector tg vector 0 copy = Some copy"
| "gather_vector tg vector (Suc i) copy =
     do {
       copy' \<leftarrow> gather_vector tg vector i copy;
       t \<leftarrow> rd tg (int i);
       k \<leftarrow> as_int (t - 1);
       v \<leftarrow> rd vector (int i);
       wr copy' k v
     }"

text \<open>
  The inner loop \<^verbatim>\<open>for (j = 0; j < count; j++) copy[offset++] = array[i][col];\<close> The
  double path reads column \<^verbatim>\<open>j\<close>, the integer path reads column \<^verbatim>\<open>0\<close>: the column read
  in iteration \<open>j\<close> is \<open>col j\<close>. In iteration \<open>j\<close> the variable \<^verbatim>\<open>offset\<close> holds
  \<open>offset + j\<close> and is incremented.
\<close>

primrec gather_components ::
  "(int \<Rightarrow> int) \<Rightarrow> 'a list list \<Rightarrow> int \<Rightarrow> int \<Rightarrow> nat \<Rightarrow> 'a list \<Rightarrow> 'a list option" where
  "gather_components col array i offset 0 copy = Some copy"
| "gather_components col array i offset (Suc j) copy =
     do {
       copy' \<leftarrow> gather_components col array i offset j copy;
       row \<leftarrow> rd array i;
       v \<leftarrow> rd row (col (int j));
       copy'' \<leftarrow> wr copy' (offset + int j) v;
       offset' \<leftarrow> as_int (offset + int j + 1);
       Some copy''
     }"

primrec gather_array ::
  "(int \<Rightarrow> int) \<Rightarrow> int list \<Rightarrow> 'a list list \<Rightarrow> int \<Rightarrow> nat \<Rightarrow> 'a list \<Rightarrow> 'a list option" where
  "gather_array col tg array count 0 copy = Some copy"
| "gather_array col tg array count (Suc i) copy =
     do {
       copy' \<leftarrow> gather_array col tg array count i copy;
       t \<leftarrow> rd tg (int i);
       k \<leftarrow> as_int (t - 1);
       offset \<leftarrow> as_int (count * k);
       gather_components col array (int i) offset (nat count) copy'
     }"

text \<open>
  \<^verbatim>\<open>memory->create(copy,count*natoms,...)\<close> followed by the loop that zeroes \<^verbatim>\<open>copy\<close>. The
  class \<^verbatim>\<open>Memory\<close> is not part of the sources; a negative size is taken as undefined.
\<close>

definition create :: "int \<Rightarrow> 'a::zero list option" where
  "create n = (if 0 \<le> n then Some (replicate (nat n) 0) else None)"

text \<open>
  What one rank does before the collective call: it returns early with the warnings it
  printed, or it reaches \<^verbatim>\<open>MPI_Allreduce\<close> with its staging buffer \<^verbatim>\<open>copy\<close>.
  \<^verbatim>\<open>Error::warning\<close> prints on the calling rank.
\<close>

datatype stage = Abort "string list" | Staged buffer

definition gather_stage :: "LAMMPS \<Rightarrow> string \<Rightarrow> int \<Rightarrow> int \<Rightarrow> stage option" where
  "gather_stage lmp name type count =
     (let flag = (if tag_enable (atom lmp) = 0 \<or> tag_consecutive (atom lmp) = 0
                  then 1 else 0 :: int);
          flag = (if sint (natoms (atom lmp)) > MAXSMALLINT then 1 else flag)
      in
        if flag \<noteq> 0 then
          Some (Abort (if me (comm lmp) = 0
                       then [''Library error in lammps_gather_atoms''] else []))
        else
          let natoms = sint (static_cast_int (natoms (atom lmp))) in
          case extract_atom (atom lmp) name of
            None \<Rightarrow> Some (Abort [''lammps_gather_atoms: unknown property name''])
          | Some vptr \<Rightarrow>
              if type = 0 then
                (if count = 1 then
                   do {
                     vector \<leftarrow> int_vector vptr;
                     n \<leftarrow> as_int (count * natoms);
                     copy \<leftarrow> create n;
                     copy \<leftarrow> gather_vector (tag (atom lmp)) vector
                                (nat (nlocal (atom lmp))) copy;
                     Some (Staged (IntData copy))
                   }
                 else
                   do {
                     array \<leftarrow> int_array vptr;
                     n \<leftarrow> as_int (count * natoms);
                     copy \<leftarrow> create n;
                     copy \<leftarrow> gather_array (\<lambda>j. 0) (tag (atom lmp)) array count
                                (nat (nlocal (atom lmp))) copy;
                     Some (Staged (IntData copy))
                   })
              else
                (if count = 1 then
                   do {
                     vector \<leftarrow> double_vector vptr;
                     n \<leftarrow> as_int (count * natoms);
                     copy \<leftarrow> create n;
                     copy \<leftarrow> gather_vector (tag (atom lmp)) vector
                                (nat (nlocal (atom lmp))) copy;
                     Some (Staged (DoubleData copy))
                   }
                 else
                   do {
                     array \<leftarrow> double_array vptr;
                     n \<leftarrow> as_int (count * natoms);
                     copy \<leftarrow> create n;
                     copy \<leftarrow> gather_array (\<lambda>j. j) (tag (atom lmp)) array count
                                (nat (nlocal (atom lmp))) copy;
                     Some (Staged (DoubleData copy))
                   }))"

text \<open>
  \<^verbatim>\<open>MPI_Allreduce\<close> with \<^verbatim>\<open>MPI_SUM\<close>: the staging buffers of all ranks are added up
  element by element, and every rank receives the sums at the start of its \<^verbatim>\<open>data\<close>.
  All ranks must pass the same number of elements, and \<^verbatim>\<open>data\<close> must hold them. MPI
  leaves the order of the additions to the implementation; here the buffers are added
  in the order of the ranks. With one rank nothing is added.
\<close>

fun MPI_Allreduce_SUM :: "'a::plus list list \<Rightarrow> 'a list" where
  "MPI_Allreduce_SUM [] = []"
| "MPI_Allreduce_SUM (copy # copies) = foldl (map2 (+)) copy copies"

definition receive :: "'a list \<Rightarrow> 'a list \<Rightarrow> 'a list option" where
  "receive recv data =
     (if length recv \<le> length data then Some (recv @ drop (length recv) data) else None)"

definition allreduce :: "'a::plus list list \<Rightarrow> 'a list list \<Rightarrow> 'a list list option" where
  "allreduce copies datas =
     (case copies of
        [] \<Rightarrow> Some []
      | copy # _ \<Rightarrow>
          if list_all (\<lambda>c. length c = length copy) copies
          then those (map (receive (MPI_Allreduce_SUM copies)) datas)
          else None)"

fun staged_int :: "stage \<Rightarrow> c_int list option" where
  "staged_int (Staged (IntData copy)) = Some copy"
| "staged_int _ = None"

fun staged_double :: "stage \<Rightarrow> double list option" where
  "staged_double (Staged (DoubleData copy)) = Some copy"
| "staged_double _ = None"

fun is_Abort :: "stage \<Rightarrow> bool" where
  "is_Abort (Abort ws) = True"
| "is_Abort (Staged copy) = False"

fun warnings :: "stage \<Rightarrow> string list" where
  "warnings (Abort ws) = ws"
| "warnings (Staged copy) = []"

text \<open>
  The call on all ranks of the world. Rank \<open>r\<close> runs on the state \<open>fst (world ! r)\<close> with
  the destination buffer \<open>snd (world ! r)\<close>; all ranks pass the same \<^verbatim>\<open>name\<close>, \<^verbatim>\<open>type\<close>
  and \<^verbatim>\<open>count\<close>. The call returns on every rank, with the warnings of the rank and its
  buffer; or some ranks return early while the others wait in the collective for ever;
  or the behaviour is undefined.
\<close>

datatype outcome = Returned "(string list \<times> buffer) list" | Deadlock | Undefined

definition lammps_gather_atoms ::
  "(LAMMPS \<times> buffer) list \<Rightarrow> string \<Rightarrow> int \<Rightarrow> int \<Rightarrow> outcome" where
  "lammps_gather_atoms world name type count =
     (case those (map (\<lambda>(lmp, data). gather_stage lmp name type count) world) of
        None \<Rightarrow> Undefined
      | Some stages \<Rightarrow>
          if list_all is_Abort stages then
            Returned (zip (map warnings stages) (map snd world))
          else if list_ex is_Abort stages then Deadlock
          else if type = 0 then
            (case do {
                    copies \<leftarrow> those (map staged_int stages);
                    datas \<leftarrow> those (map (int_data \<circ> snd) world);
                    allreduce copies datas
                  } of
               None \<Rightarrow> Undefined
             | Some datas \<Rightarrow> Returned (map (\<lambda>d. ([], IntData d)) datas))
          else
            (case do {
                    copies \<leftarrow> those (map staged_double stages);
                    datas \<leftarrow> those (map (double_data \<circ> snd) world);
                    allreduce copies datas
                  } of
               None \<Rightarrow> Undefined
             | Some datas \<Rightarrow> Returned (map (\<lambda>d. ([], DoubleData d)) datas)))"

subsection \<open>\<^verbatim>\<open>lammps_scatter_atoms\<close>\<close>

text \<open>
  \<open>scatter_vector mp dptr n vector\<close> is \<^verbatim>\<open>vector\<close> after the iterations
  \<open>i = 0, \<dots>, n - 1\<close> of
  \<^verbatim>\<open>for (i = 0; i < natoms; i++) if ((m = map(i+1)) >= 0) vector[m] = dptr[i];\<close>
\<close>

primrec scatter_vector :: "(int \<Rightarrow> int) \<Rightarrow> 'a list \<Rightarrow> nat \<Rightarrow> 'a list \<Rightarrow> 'a list option" where
  "scatter_vector mp dptr 0 vector = Some vector"
| "scatter_vector mp dptr (Suc i) vector =
     do {
       vector' \<leftarrow> scatter_vector mp dptr i vector;
       let m = mp (int i + 1) in
       if m \<ge> 0 then
         do {
           v \<leftarrow> rd dptr (int i);
           wr vector' m v
         }
       else Some vector'
     }"

text \<open>
  The inner loop \<^verbatim>\<open>for (j = 0; j < count; j++) array[m][j] = dptr[offset++];\<close> In
  iteration \<open>j\<close> the variable \<^verbatim>\<open>offset\<close> holds \<open>offset + j\<close> and is incremented.
\<close>

primrec scatter_components ::
  "'a list \<Rightarrow> int \<Rightarrow> int \<Rightarrow> nat \<Rightarrow> 'a list list \<Rightarrow> 'a list list option" where
  "scatter_components dptr m offset 0 array = Some array"
| "scatter_components dptr m offset (Suc j) array =
     do {
       array' \<leftarrow> scatter_components dptr m offset j array;
       v \<leftarrow> rd dptr (offset + int j);
       offset' \<leftarrow> as_int (offset + int j + 1);
       row \<leftarrow> rd array' m;
       row' \<leftarrow> wr row (int j) v;
       wr array' m row'
     }"

primrec scatter_array ::
  "(int \<Rightarrow> int) \<Rightarrow> 'a list \<Rightarrow> int \<Rightarrow> nat \<Rightarrow> 'a list list \<Rightarrow> 'a list list option" where
  "scatter_array mp dptr count 0 array = Some array"
| "scatter_array mp dptr count (Suc i) array =
     do {
       array' \<leftarrow> scatter_array mp dptr count i array;
       let m = mp (int i + 1) in
       if m \<ge> 0 then
         do {
           offset \<leftarrow> as_int (count * int i);
           scatter_components dptr m offset (nat count) array'
         }
       else Some array'
     }"

text \<open>The storage behind \<^verbatim>\<open>vptr\<close> after the writes; everything else keeps its value.\<close>

definition store :: "LAMMPS \<Rightarrow> string \<Rightarrow> per_atom \<Rightarrow> LAMMPS" where
  "store lmp name f =
     lmp\<lparr>atom := (atom lmp)\<lparr>extract_atom := (extract_atom (atom lmp))(name := Some f)\<rparr>\<rparr>"

text \<open>The call on one rank: the warnings the rank printed and its state on return.\<close>

definition lammps_scatter_atoms ::
  "LAMMPS \<Rightarrow> string \<Rightarrow> int \<Rightarrow> int \<Rightarrow> buffer \<Rightarrow> (string list \<times> LAMMPS) option" where
  "lammps_scatter_atoms lmp name type count data =
     (let flag = (if tag_enable (atom lmp) = 0 \<or> tag_consecutive (atom lmp) = 0
                  then 1 else 0 :: int);
          flag = (if sint (natoms (atom lmp)) > MAXSMALLINT then 1 else flag);
          flag = (if map_style (atom lmp) = 0 then 1 else flag)
      in
        if flag \<noteq> 0 then
          Some (if me (comm lmp) = 0
                then [''Library error in lammps_scatter_atoms''] else [], lmp)
        else
          let natoms = sint (static_cast_int (natoms (atom lmp))) in
          case extract_atom (atom lmp) name of
            None \<Rightarrow> Some ([''lammps_scatter_atoms: unknown property name''], lmp)
          | Some vptr \<Rightarrow>
              if type = 0 then
                (if count = 1 then
                   do {
                     vector \<leftarrow> int_vector vptr;
                     dptr \<leftarrow> int_data data;
                     vector' \<leftarrow> scatter_vector (map_atom (atom lmp)) dptr (nat natoms) vector;
                     Some ([], store lmp name (IntVector vector'))
                   }
                 else
                   do {
                     array \<leftarrow> int_array vptr;
                     dptr \<leftarrow> int_data data;
                     array' \<leftarrow> scatter_array (map_atom (atom lmp)) dptr count (nat natoms) array;
                     Some ([], store lmp name (IntArray array'))
                   })
              else
                (if count = 1 then
                   do {
                     vector \<leftarrow> double_vector vptr;
                     dptr \<leftarrow> double_data data;
                     vector' \<leftarrow> scatter_vector (map_atom (atom lmp)) dptr (nat natoms) vector;
                     Some ([], store lmp name (DoubleVector vector'))
                   }
                 else
                   do {
                     array \<leftarrow> double_array vptr;
                     dptr \<leftarrow> double_data data;
                     array' \<leftarrow> scatter_array (map_atom (atom lmp)) dptr count (nat natoms) array;
                     Some ([], store lmp name (DoubleArray array'))
                   }))"

text \<open>
  The call on all ranks of the world, as for gather. The function calls nothing of MPI:
  every rank runs on its own, whatever the other ranks do.
\<close>

definition scatter_all ::
  "(LAMMPS \<times> buffer) list \<Rightarrow> string \<Rightarrow> int \<Rightarrow> int \<Rightarrow> (string list \<times> LAMMPS) option list" where
  "scatter_all world name type count =
     map (\<lambda>(lmp, data). lammps_scatter_atoms lmp name type count data) world"

subsection \<open>\<^verbatim>\<open>lammps_commands_list\<close>\<close>










subsection \<open>Reading storage and buffers\<close>

text \<open>
  To speak about the integer and the double path at once, the values of both kinds are
  read as numbers: \<open>rows f ! m\<close> are the components of the atom in local slot \<open>m\<close> (a
  vector has one component per atom), \<open>elems data\<close> are the elements of a buffer.
\<close>

datatype number = I32 c_int | F64 double

fun rows :: "per_atom \<Rightarrow> number list list" where
  "rows (IntVector v) = map (\<lambda>x. [I32 x]) v"
| "rows (IntArray a) = map (map I32) a"
| "rows (DoubleVector v) = map (\<lambda>x. [F64 x]) v"
| "rows (DoubleArray a) = map (map F64) a"

fun elems :: "buffer \<Rightarrow> number list" where
  "elems (IntData d) = map I32 d"
| "elems (DoubleData d) = map F64 d"

text \<open>A number that is an integer or an ordinary double.\<close>

fun ordinary_number :: "number \<Rightarrow> bool" where
  "ordinary_number (I32 x) = True"
| "ordinary_number (F64 d) = ordinary d"

text \<open>
  The storage and the buffer that fit the casts of the path chosen by \<^verbatim>\<open>type\<close> and
  \<^verbatim>\<open>count\<close>.
\<close>

fun fits :: "int \<Rightarrow> int \<Rightarrow> per_atom \<Rightarrow> buffer \<Rightarrow> bool" where
  "fits type count (IntVector v) (IntData d) = (type = 0 \<and> count = 1)"
| "fits type count (IntArray a) (IntData d) = (type = 0 \<and> count \<noteq> 1)"
| "fits type count (DoubleVector v) (DoubleData d) = (type \<noteq> 0 \<and> count = 1)"
| "fits type count (DoubleArray a) (DoubleData d) = (type \<noteq> 0 \<and> count \<noteq> 1)"
| "fits type count f data = False"

text \<open>Two storages of the same shape and kind.\<close>

fun same_shape :: "per_atom \<Rightarrow> per_atom \<Rightarrow> bool" where
  "same_shape (IntVector v) (IntVector v') = True"
| "same_shape (IntArray a) (IntArray a') = True"
| "same_shape (DoubleVector v) (DoubleVector v') = True"
| "same_shape (DoubleArray a) (DoubleArray a') = True"
| "same_shape f f' = False"

text \<open>
  The effect of the scatter loops on the rows \<open>rs\<close> of a property, for the lookup \<open>mp\<close>
  and \<open>N\<close> atoms: the number of rows stays; a row that no tag in \<open>1..N\<close> resolves to
  keeps its value; the row of the last tag that resolves to it holds the \<open>count\<close> values
  of that tag, and its components from \<open>count\<close> on keep their values.
\<close>

definition scatter_effect ::
  "(int \<Rightarrow> int) \<Rightarrow> int \<Rightarrow> int \<Rightarrow> number list list \<Rightarrow> number list list \<Rightarrow> number list \<Rightarrow> bool" where
  "scatter_effect mp N count rs rs' es \<longleftrightarrow>
     length rs' = length rs \<and>
     (\<forall>m<length rs. (\<forall>t\<in>{1..N}. mp t \<noteq> int m) \<longrightarrow> rs' ! m = rs ! m) \<and>
     (\<forall>t\<in>{1..N}. 0 \<le> mp t \<longrightarrow> (\<forall>t'\<in>{t<..N}. mp t' \<noteq> mp t) \<longrightarrow>
        nat (mp t) < length rs \<and>
        take (nat count) (rs' ! nat (mp t)) = take (nat count) (drop (nat (count * (t - 1))) es) \<and>
        drop (nat count) (rs' ! nat (mp t)) = drop (nat count) (rs ! nat (mp t)))"

text \<open>The elements of a buffer of one kind; a buffer of the other kind has none.\<close>

fun ints :: "buffer \<Rightarrow> c_int list" where
  "ints (IntData d) = d"
| "ints (DoubleData d) = []"

fun doubles :: "buffer \<Rightarrow> double list" where
  "doubles (IntData d) = []"
| "doubles (DoubleData d) = d"

text \<open>
  The zero the staging buffer is filled with, and the column of \<^verbatim>\<open>array[i]\<close> that the
  gather loop of each path reads in iteration \<open>j\<close>.
\<close>

definition zero_of :: "int \<Rightarrow> number" where
  "zero_of type = (if type = 0 then I32 0 else F64 0)"

definition column :: "int \<Rightarrow> int \<Rightarrow> int" where
  "column type j = (if type = 0 then 0 else j)"

text \<open>
  The effect of the gather loops on a staging buffer \<open>es\<close> that starts as zeros, for the
  tags \<open>tg\<close> of \<open>nl\<close> local atoms with rows \<open>rs\<close>: an offset outside the block of every
  local tag still holds zero; the block of a local tag that no later local atom
  repeats holds the values read for that atom.
\<close>

definition staging_effect ::
  "int list \<Rightarrow> nat \<Rightarrow> int \<Rightarrow> (int \<Rightarrow> int) \<Rightarrow> number \<Rightarrow> number list list \<Rightarrow> number list \<Rightarrow> bool" where
  "staging_effect tg nl count col z rs es \<longleftrightarrow>
     (\<forall>k<length es.
        (\<forall>i<nl. \<not> (count * (tg ! i - 1) \<le> int k \<and> int k < count * (tg ! i - 1) + count)) \<longrightarrow>
        es ! k = z) \<and>
     (\<forall>i<nl. (\<forall>i'. i < i' \<and> i' < nl \<longrightarrow> tg ! i' \<noteq> tg ! i) \<longrightarrow>
        i < length tg \<and> i < length rs \<and>
        (\<forall>j<nat count.
           0 \<le> count * (tg ! i - 1) + int j \<and>
           nat (count * (tg ! i - 1) + int j) < length es \<and>
           0 \<le> col (int j) \<and> nat (col (int j)) < length (rs ! i) \<and>
           es ! nat (count * (tg ! i - 1) + int j) = rs ! i ! nat (col (int j))))"

text \<open>
  The tags of the atoms a rank owns, these atoms with their rows of the property
  \<open>name\<close>, and the atoms of all ranks of a world.
\<close>

definition owned_tags :: "LAMMPS \<Rightarrow> int list" where
  "owned_tags lmp = take (nat (nlocal (atom lmp))) (tag (atom lmp))"

definition owned :: "LAMMPS \<Rightarrow> string \<Rightarrow> (int \<times> number list) list" where
  "owned lmp name =
     (case extract_atom (atom lmp) name of
        None \<Rightarrow> []
      | Some f \<Rightarrow> zip (owned_tags lmp) (rows f))"

definition atoms_of :: "(LAMMPS \<times> buffer) list \<Rightarrow> string \<Rightarrow> (int \<times> number list) list" where
  "atoms_of world name = concat (map (\<lambda>(lmp, data). owned lmp name) world)"

subsection \<open>Example states\<close>

text \<open>
  A rank that owns the atoms with the tags \<open>tags\<close>, in this order, with one per-atom
  property \<open>name\<close>; tags are enabled and consecutive and an atom map exists.
\<close>

definition rank :: "int \<Rightarrow> bigint \<Rightarrow> int list \<Rightarrow> string \<Rightarrow> per_atom \<Rightarrow> (int \<Rightarrow> int) \<Rightarrow> LAMMPS" where
  "rank r n tags name f mp =
     \<lparr>atom = \<lparr>natoms = n, tag_enable = 1, tag_consecutive = 1, map_style = 1,
        nlocal = int (length tags), tag = tags,
        extract_atom = (\<lambda>_. None)(name := Some f), map_atom = mp\<rparr>,
      comm = \<lparr>me = r\<rparr>\<rparr>"

definition no_map :: "LAMMPS \<Rightarrow> LAMMPS" where
  "no_map lmp = lmp\<lparr>atom := (atom lmp)\<lparr>map_style := 0\<rparr>\<rparr>"

definition int3_rank :: LAMMPS where
  "int3_rank = rank 0 2 [2, 1] ''x'' (IntArray [[1, 2, 3], [4, 5, 6]])
     (\<lambda>t. if t = 1 then 1 else if t = 2 then 0 else - 1)"

definition two_ranks :: "bigint \<Rightarrow> (LAMMPS \<times> buffer) list" where
  "two_ranks n =
     [(rank 0 n [2] ''x'' (DoubleArray [[dbl 1, dbl 2, dbl 3]]) (\<lambda>t. if t = 2 then 0 else - 1),
       DoubleData (replicate 7 (dbl 9))),
      (rank 1 n [1] ''x'' (DoubleArray [[dbl 4, dbl 5, dbl 6]]) (\<lambda>t. if t = 1 then 0 else - 1),
       DoubleData (replicate 6 0))]"

text \<open>A rank whose lookup knows the atom with tag 1 only.\<close>

definition partial_rank :: LAMMPS where
  "partial_rank = rank 0 2 [2, 1] ''x'' (IntArray [[1, 2, 3], [4, 5, 6]])
     (\<lambda>t. if t = 1 then 1 else - 1)"

text \<open>Two ranks with one atom each, of three integer components.\<close>

definition int3_world :: "(LAMMPS \<times> buffer) list" where
  "int3_world =
     [(rank 0 2 [2] ''x'' (IntArray [[1, 2, 3]]) (\<lambda>t. if t = 2 then 0 else - 1),
       IntData (replicate 6 0)),
      (rank 1 2 [1] ''x'' (IntArray [[4, 5, 6]]) (\<lambda>t. if t = 1 then 0 else - 1),
       IntData (replicate 6 0))]"

text \<open>A rank with a double property per atom whose lookup knows the atom with tag 2 only.\<close>

definition charge_rank :: LAMMPS where
  "charge_rank = rank 0 2 [2] ''q'' (DoubleVector [dbl 5]) (\<lambda>t. if t = 2 then 0 else - 1)"

text \<open>
  One atom with the double value \<open>-0.0\<close>, in a world of one rank and in a world of two
  ranks, the second of which owns no atom.
\<close>

definition minus_zero_one_rank :: "(LAMMPS \<times> buffer) list" where
  "minus_zero_one_rank =
     [(rank 0 1 [1] ''q'' (DoubleVector [Double True 0 0]) (\<lambda>t. t - 1), DoubleData [0])]"

definition minus_zero_two_ranks :: "(LAMMPS \<times> buffer) list" where
  "minus_zero_two_ranks =
     [(rank 0 1 [1] ''q'' (DoubleVector [Double True 0 0]) (\<lambda>t. t - 1), DoubleData [0]),
      (rank 1 1 [] ''q'' (DoubleVector []) (\<lambda>t. - 1), DoubleData [0])]"

text \<open>One rank that owns the two atoms of \<open>two_ranks\<close>.\<close>

definition one_rank :: "(LAMMPS \<times> buffer) list" where
  "one_rank =
     [(rank 0 2 [1, 2] ''x'' (DoubleArray [[dbl 4, dbl 5, dbl 6], [dbl 1, dbl 2, dbl 3]])
         (\<lambda>t. t - 1),
       DoubleData (replicate 6 0))]"

section \<open>Verification\<close>

subsection \<open>The atom count\<close>

lemma sint_scast_64_32:
  "sint (scast (n :: 64 word) :: 32 word) = signed_take_bit 31 (sint n)"
  by transfer simp

lemma sint_static_cast_int:
  assumes "- 2147483648 \<le> sint n" and "sint n \<le> 2147483647"
  shows "sint (static_cast_int n) = sint n"
  unfolding static_cast_int_def sint_scast_64_32
  using assms by (simp add: signed_take_bit_int_eq_self)

text \<open>
  C9. \<^verbatim>\<open>lammps_get_natoms\<close> returns 0 whenever the total atom count exceeds
  \<^verbatim>\<open>MAXSMALLINT\<close>; otherwise it returns the count converted to a 32-bit int, and the
  conversion keeps the value of every count between 0 and \<^verbatim>\<open>MAXSMALLINT\<close>. No count
  above the bound is returned truncated.
\<close>

theorem lammps_get_natoms_spec:
  "(MAXSMALLINT < sint (natoms (atom lmp)) \<longrightarrow> lammps_get_natoms lmp = 0) \<and>
   (sint (natoms (atom lmp)) \<le> MAXSMALLINT \<longrightarrow>
      lammps_get_natoms lmp = static_cast_int (natoms (atom lmp))) \<and>
   (0 \<le> sint (natoms (atom lmp)) \<and> sint (natoms (atom lmp)) \<le> MAXSMALLINT \<longrightarrow>
      sint (lammps_get_natoms lmp) = sint (natoms (atom lmp)))"
  by (simp add: lammps_get_natoms_def MAXSMALLINT_def sint_static_cast_int)


text \<open>The two conversions at work: a count above the bound, and a small one.\<close>

theorem lammps_get_natoms_spec_witness:
  "lammps_get_natoms (atoms_only 2147483648) = 0 \<and>
   sint (lammps_get_natoms (atoms_only 5)) = 5"
  using lammps_get_natoms_spec [of "atoms_only 2147483648"]
    lammps_get_natoms_spec [of "atoms_only 5"]
  by (simp add: atoms_only_def MAXSMALLINT_def static_cast_int_def)

subsection \<open>The command buffer\<close>










subsection \<open>Running the model\<close>

lemmas ev = lammps_gather_atoms_def gather_stage_def rank_def MAXSMALLINT_def static_cast_int_def
  as_int_def INT_MAX_def INT_MIN_def create_def rd_def wr_def allreduce_def receive_def Let_def
  lammps_scatter_atoms_def store_def

subsection \<open>Rejected calls\<close>

lemma those_map_Some:
  "(\<And>x. x \<in> set xs \<Longrightarrow> f x = Some (g x)) \<Longrightarrow> those (map f xs) = Some (map g xs)"
  by (induction xs) auto

lemma gather_stage_rejects:
  assumes "tag_enable (atom lmp) = 0 \<or> tag_consecutive (atom lmp) = 0 \<or>
           MAXSMALLINT < sint (natoms (atom lmp))"
  shows "gather_stage lmp name type count =
           Some (Abort (if me (comm lmp) = 0
                        then [''Library error in lammps_gather_atoms''] else []))"
  using assms by (auto simp: gather_stage_def Let_def)

lemma scatter_rejects:
  assumes "tag_enable (atom lmp) = 0 \<or> tag_consecutive (atom lmp) = 0 \<or>
           MAXSMALLINT < sint (natoms (atom lmp)) \<or> map_style (atom lmp) = 0"
  shows "lammps_scatter_atoms lmp name type count data =
           Some (if me (comm lmp) = 0
                 then [''Library error in lammps_scatter_atoms''] else [], lmp)"
  using assms by (auto simp: lammps_scatter_atoms_def Let_def)

lemma ranks_split:
  assumes "map (\<lambda>(lmp, data). me (comm lmp)) world = map int [0..<length world]"
    and "world \<noteq> []"
  shows "me (comm (fst (hd world))) = 0 \<and> (\<forall>(lmp, data)\<in>set (tl world). me (comm lmp) \<noteq> 0)"
proof -
  obtain w ws where w: "world = w # ws" using assms(2) by (cases world) auto
  have "map (\<lambda>(lmp, data). me (comm lmp)) (w # ws) = 0 # map int [1..<Suc (length ws)]"
    using assms(1) unfolding w by (simp add: upt_conv_Cons del: upt_Suc)
  then have h: "me (comm (fst w)) = 0"
    and t: "map (\<lambda>(lmp, data). me (comm lmp)) ws = map int [1..<Suc (length ws)]"
    by (auto simp: case_prod_beta)
  have "\<forall>x\<in>set (map (\<lambda>(lmp, data). me (comm lmp)) ws). x \<noteq> 0"
    unfolding t by auto
  then show ?thesis using h unfolding w by (auto simp: case_prod_beta)
qed

text \<open>
  C3. Let the ranks of the world be numbered from 0, and let the tags be disabled or not
  consecutive or the atom count exceed \<^verbatim>\<open>MAXSMALLINT\<close> on every rank. Then gather returns
  on all ranks with every destination buffer untouched, scatter returns on all ranks
  with every state untouched, and in each case exactly one warning is printed, by
  rank 0.
\<close>

theorem precondition_rejection:
  assumes ranks: "map (\<lambda>(lmp, data). me (comm lmp)) world = map int [0..<length world]"
    and ne: "world \<noteq> []"
    and rej: "\<forall>(lmp, data)\<in>set world.
           tag_enable (atom lmp) = 0 \<or> tag_consecutive (atom lmp) = 0 \<or>
           MAXSMALLINT < sint (natoms (atom lmp))"
  shows "lammps_gather_atoms world name type count =
           Returned (([''Library error in lammps_gather_atoms''], snd (hd world)) #
                     map (\<lambda>(lmp, data). ([], data)) (tl world)) \<and>
         map (\<lambda>(lmp, data). lammps_scatter_atoms lmp name type count data) world =
           Some ([''Library error in lammps_scatter_atoms''], fst (hd world)) #
           map (\<lambda>(lmp, data). Some ([], lmp)) (tl world)"
proof -
  obtain l0 d0 ws where w: "world = (l0, d0) # ws" using ne by (cases world) auto
  from ranks_split[OF ranks ne]
  have h: "me (comm l0) = 0" and t: "\<forall>(lmp, data)\<in>set ws. me (comm lmp) \<noteq> 0"
    unfolding w by auto
  let ?g = "\<lambda>(lmp, data). Abort (if me (comm lmp) = 0
                        then [''Library error in lammps_gather_atoms''] else [])"
  have st: "those (map (\<lambda>(lmp, data). gather_stage lmp name type count) world) =
              Some (map ?g world)"
    by (rule those_map_Some) (use rej gather_stage_rejects in auto)
  have ab: "list_all is_Abort (map ?g world)"
    by (auto simp: list_all_iff)
  have z: "zip (map warnings (map ?g world)) (map snd world) =
             ([''Library error in lammps_gather_atoms''], d0) # map (\<lambda>(lmp, data). ([], data)) ws"
    unfolding w using h t by (auto simp: zip_map_map case_prod_beta zip_same_conv_map)
  have g: "lammps_gather_atoms world name type count =
           Returned (([''Library error in lammps_gather_atoms''], snd (hd world)) #
                     map (\<lambda>(lmp, data). ([], data)) (tl world))"
    unfolding lammps_gather_atoms_def st using ab z by (simp add: w)
  have s: "map (\<lambda>(lmp, data). lammps_scatter_atoms lmp name type count data) world =
           Some ([''Library error in lammps_scatter_atoms''], fst (hd world)) #
           map (\<lambda>(lmp, data). Some ([], lmp)) (tl world)"
  proof -
    have "map (\<lambda>(lmp, data). lammps_scatter_atoms lmp name type count data) world =
          map (\<lambda>(lmp, data). Some (if me (comm lmp) = 0
                 then [''Library error in lammps_scatter_atoms''] else [], lmp)) world"
      by (rule map_cong[OF refl]) (use rej in \<open>auto simp: scatter_rejects\<close>)
    also have "\<dots> = Some ([''Library error in lammps_scatter_atoms''], fst (hd world)) #
           map (\<lambda>(lmp, data). Some ([], lmp)) (tl world)"
      unfolding w using h t by (auto simp: case_prod_beta)
    finally show ?thesis .
  qed
  show ?thesis using g s by simp
qed

theorem precondition_rejection_witness:
  "lammps_gather_atoms (two_ranks 4294967296) ''x'' 1 3 =
     Returned [([''Library error in lammps_gather_atoms''], DoubleData (replicate 7 (dbl 9))),
               ([], DoubleData (replicate 6 0))] \<and>
   map (\<lambda>(lmp, data). lammps_scatter_atoms lmp ''x'' 1 3 data) (two_ranks 4294967296) =
     [Some ([''Library error in lammps_scatter_atoms''], fst (two_ranks 4294967296 ! 0)),
      Some ([], fst (two_ranks 4294967296 ! 1))]"
  using precondition_rejection [of "two_ranks 4294967296" "''x''" 1 3]
  by (simp add: two_ranks_def rank_def MAXSMALLINT_def upt_conv_Cons)

text \<open>
  C8. Scatter has one precondition more than gather: without an atom map
  (\<^verbatim>\<open>map_style == 0\<close>) it returns with the state untouched, and the library error is
  printed by rank 0. Gather does not look at \<^verbatim>\<open>map_style\<close>.
\<close>

theorem map_style_precondition:
  assumes "map_style (atom lmp) = 0"
  shows "lammps_scatter_atoms lmp name type count data =
           Some (if me (comm lmp) = 0
                 then [''Library error in lammps_scatter_atoms''] else [], lmp) \<and>
         gather_stage (lmp\<lparr>atom := (atom lmp)\<lparr>map_style := s\<rparr>\<rparr>) name type count =
           gather_stage lmp name type count"
  using assms by (auto simp: scatter_rejects gather_stage_def Let_def split: option.split)


theorem map_style_precondition_witness:
  "lammps_scatter_atoms (no_map int3_rank) ''x'' 0 3 (IntData [7, 7, 7, 7, 7, 7]) =
     Some ([''Library error in lammps_scatter_atoms''], no_map int3_rank) \<and>
   gather_stage (no_map int3_rank) ''x'' 0 3 = gather_stage int3_rank ''x'' 0 3"
  using map_style_precondition [of "no_map int3_rank" "''x''" 0 3 "IntData [7, 7, 7, 7, 7, 7]" 1]
  by (simp add: no_map_def int3_rank_def rank_def)

subsection \<open>The scatter loops\<close>

lemma rd_Some: "rd xs i = Some v \<longleftrightarrow> 0 \<le> i \<and> nat i < length xs \<and> v = xs ! nat i"
  by (auto simp: rd_def)

lemma wr_Some: "wr xs i v = Some ys \<longleftrightarrow> 0 \<le> i \<and> nat i < length xs \<and> ys = xs[nat i := v]"
  by (auto simp: wr_def)

lemma as_int_Some: "as_int x = Some y \<longleftrightarrow> y = x \<and> INT_MIN \<le> x \<and> x \<le> INT_MAX"
  by (auto simp: as_int_def)

lemma scatter_vector_length:
  "scatter_vector mp dptr n vector = Some vector' \<Longrightarrow> length vector' = length vector"
  by (induction n arbitrary: vector')
     (auto simp: bind_eq_Some_conv wr_Some Let_def split: if_splits)

lemma scatter_vector_untouched:
  assumes "scatter_vector mp dptr n vector = Some vector'"
    and "\<forall>i<n. mp (int i + 1) \<noteq> int m"
  shows "vector' ! m = vector ! m"
  using assms
proof (induction n arbitrary: vector')
  case 0
  then show ?case by simp
next
  case (Suc n)
  then obtain v where v: "scatter_vector mp dptr n vector = Some v"
    by (auto simp: bind_eq_Some_conv)
  have ih: "v ! m = vector ! m" using Suc.IH[OF v] Suc.prems(2) by simp
  have "mp (int n + 1) \<noteq> int m" using Suc.prems(2) by simp
  then have "vector' ! m = v ! m"
    using Suc.prems(1) v by (auto simp: Let_def wr_Some rd_Some bind_eq_Some_conv split: if_splits)
  then show ?case using ih by simp
qed

lemma scatter_vector_copied:
  assumes "scatter_vector mp dptr n vector = Some vector'"
    and "i < n" and "0 \<le> mp (int i + 1)"
    and "\<forall>i'. i < i' \<and> i' < n \<longrightarrow> mp (int i' + 1) \<noteq> mp (int i + 1)"
  shows "nat (mp (int i + 1)) < length vector \<and> i < length dptr \<and>
         vector' ! nat (mp (int i + 1)) = dptr ! i"
  using assms
proof (induction n arbitrary: vector')
  case 0
  then show ?case by simp
next
  case (Suc n)
  then obtain v where v: "scatter_vector mp dptr n vector = Some v"
    by (auto simp: bind_eq_Some_conv)
  have lv: "length v = length vector" using v by (rule scatter_vector_length)
  show ?case
  proof (cases "i = n")
    case True
    then show ?thesis
      using Suc.prems(1,3) v lv
      by (auto simp: Let_def wr_Some rd_Some bind_eq_Some_conv split: if_splits)
  next
    case False
    then have lt: "i < n" using Suc.prems(2) by simp
    have ih: "nat (mp (int i + 1)) < length vector \<and> i < length dptr \<and>
              v ! nat (mp (int i + 1)) = dptr ! i"
      using Suc.IH[OF v lt Suc.prems(3)] Suc.prems(4) by simp
    have ne: "mp (int n + 1) \<noteq> mp (int i + 1)" using Suc.prems(4) lt by simp
    have "vector' ! nat (mp (int i + 1)) = v ! nat (mp (int i + 1))"
      using Suc.prems(1,3) v ne
      by (auto simp: Let_def wr_Some rd_Some bind_eq_Some_conv nat_eq_iff split: if_splits)
    then show ?thesis using ih by simp
  qed
qed

text \<open>The inner loop of the array path in closed form.\<close>

lemma scatter_components_closed:
  assumes "scatter_components dptr m offset c array = Some array'" and "0 < c"
  shows "0 \<le> m \<and> nat m < length array \<and> c \<le> length (array ! nat m) \<and>
         0 \<le> offset \<and> nat offset + c \<le> length dptr \<and>
         array' = array[nat m := take c (drop (nat offset) dptr) @ drop c (array ! nat m)]"
  using assms
proof (induction c arbitrary: array')
  case 0
  then show ?case by simp
next
  case (Suc c)
  then obtain a where a: "scatter_components dptr m offset c array = Some a"
    by (auto simp: bind_eq_Some_conv)
  from Suc.prems(1) a obtain v row row' where
      v: "rd dptr (offset + int c) = Some v" and row: "rd a m = Some row"
      and row': "wr row (int c) v = Some row'" and arr: "wr a m row' = Some array'"
    by (auto simp: bind_eq_Some_conv)
  show ?case
  proof (cases "c = 0")
    case True
    have aa: "a = array" using True a by simp
    have m: "0 \<le> m" "nat m < length array" and r: "row = array ! nat m"
      using row aa by (auto simp: rd_Some)
    have o: "0 \<le> offset" "nat offset < length dptr" and vv: "v = dptr ! nat offset"
      using v True by (auto simp: rd_Some)
    have rne: "0 < length row" and r': "row' = row[0 := v]"
      using row' True by (auto simp: wr_Some)
    have t: "take (Suc 0) (drop (nat offset) dptr) = [v]"
      using o vv by (simp add: take_Suc_conv_app_nth)
    have "row[0 := v] = [v] @ drop (Suc 0) row"
      using rne by (cases row) auto
    then have "array' = array[nat m := take (Suc 0) (drop (nat offset) dptr) @
                 drop (Suc 0) (array ! nat m)]"
      using arr aa r r' t by (simp add: wr_Some)
    moreover have "Suc 0 \<le> length (array ! nat m)"
      using rne r by (cases "array ! nat m") auto
    ultimately show ?thesis using True m o by simp
  next
    case False
    then have ih: "0 \<le> m \<and> nat m < length array \<and> c \<le> length (array ! nat m) \<and>
         0 \<le> offset \<and> nat offset + c \<le> length dptr \<and>
         a = array[nat m := take c (drop (nat offset) dptr) @ drop c (array ! nat m)]"
      using Suc.IH[OF a] by simp
    let ?pre = "take c (drop (nat offset) dptr)"
    have bnd: "nat offset + c \<le> length dptr" using ih by blast
    have lpre: "length ?pre = c" using bnd by simp
    have r: "row = ?pre @ drop c (array ! nat m)" using row ih by (simp add: rd_Some)
    have clt: "c < length (array ! nat m)" using row' r lpre by (simp add: wr_Some)
    have off: "nat offset + c < length dptr" using v ih by (auto simp: rd_Some nat_add_distrib)
    have vv: "v = dptr ! (nat offset + c)" using v ih by (auto simp: rd_Some nat_add_distrib)
    have "row' = ?pre @ v # drop (Suc c) (array ! nat m)"
      using row' r lpre clt
      by (simp add: wr_Some list_update_append Cons_nth_drop_Suc[symmetric])
    moreover have "take (Suc c) (drop (nat offset) dptr) = ?pre @ [v]"
      using off vv by (simp add: take_Suc_conv_app_nth)
    ultimately have "row' = take (Suc c) (drop (nat offset) dptr) @ drop (Suc c) (array ! nat m)"
      by simp
    then show ?thesis using arr ih clt off by (auto simp: wr_Some)
  qed
qed


lemma scatter_components_step:
  assumes "scatter_components dptr m offset c array = Some array'"
  shows "length array' = length array \<and>
         (\<forall>k. int k \<noteq> m \<longrightarrow> array' ! k = array ! k) \<and>
         (\<forall>k<length array. drop c (array' ! k) = drop c (array ! k))"
proof (cases "c = 0")
  case True
  then show ?thesis using assms by simp
next
  case False
  then have c: "0 \<le> m \<and> nat m < length array \<and> c \<le> length (array ! nat m) \<and>
         0 \<le> offset \<and> nat offset + c \<le> length dptr \<and>
         array' = array[nat m := take c (drop (nat offset) dptr) @ drop c (array ! nat m)]"
    using scatter_components_closed[OF assms] by simp
  then have a': "array' = array[nat m := take c (drop (nat offset) dptr) @ drop c (array ! nat m)]"
    and bnd: "nat offset + c \<le> length dptr" and m: "0 \<le> m"
    by blast+
  have l: "length (take c (drop (nat offset) dptr)) = c" using bnd by simp
  have "drop c (array' ! k) = drop c (array ! k)" if "k < length array" for k
  proof (cases "k = nat m")
    case True
    then have "array' ! k = take c (drop (nat offset) dptr) @ drop c (array ! nat m)"
      unfolding a' using that by simp
    then show ?thesis using l True by simp
  next
    case False
    then show ?thesis unfolding a' by simp
  qed
  then have "\<forall>k<length array. drop c (array' ! k) = drop c (array ! k)"
    by blast
  moreover have "\<forall>k. int k \<noteq> m \<longrightarrow> array' ! k = array ! k"
    unfolding a' using m by (auto simp: nth_list_update)
  ultimately show ?thesis unfolding a' by simp
qed

lemma scatter_array_frame:
  assumes "scatter_array mp dptr count n array = Some array'"
  shows "length array' = length array \<and>
         (\<forall>k<length array. drop (nat count) (array' ! k) = drop (nat count) (array ! k))"
  using assms
proof (induction n arbitrary: array')
  case 0
  then show ?case by simp
next
  case (Suc n)
  then obtain a where a: "scatter_array mp dptr count n array = Some a"
    by (auto simp: bind_eq_Some_conv)
  have ih: "length a = length array \<and>
         (\<forall>k<length array. drop (nat count) (a ! k) = drop (nat count) (array ! k))"
    using Suc.IH[OF a] .
  show ?case
  proof (cases "0 \<le> mp (int n + 1)")
    case True
    then have "scatter_components dptr (mp (int n + 1)) (count * int n) (nat count) a = Some array'"
      using Suc.prems a by (auto simp: Let_def bind_eq_Some_conv as_int_Some)
    from scatter_components_step[OF this] show ?thesis using ih by simp
  next
    case False
    then have "array' = a" using Suc.prems a by (simp add: Let_def)
    then show ?thesis using ih by simp
  qed
qed

lemma scatter_array_untouched:
  assumes "scatter_array mp dptr count n array = Some array'"
    and "\<forall>i<n. mp (int i + 1) \<noteq> int m"
  shows "array' ! m = array ! m"
  using assms
proof (induction n arbitrary: array')
  case 0
  then show ?case by simp
next
  case (Suc n)
  then obtain a where a: "scatter_array mp dptr count n array = Some a"
    by (auto simp: bind_eq_Some_conv)
  have ih: "a ! m = array ! m" using Suc.IH[OF a] Suc.prems(2) by simp
  have ne: "mp (int n + 1) \<noteq> int m" using Suc.prems(2) by simp
  show ?case
  proof (cases "0 \<le> mp (int n + 1)")
    case True
    then have "scatter_components dptr (mp (int n + 1)) (count * int n) (nat count) a = Some array'"
      using Suc.prems a by (auto simp: Let_def bind_eq_Some_conv as_int_Some)
    from scatter_components_step[OF this] show ?thesis using ih ne by simp
  next
    case False
    then have "array' = a" using Suc.prems a by (simp add: Let_def)
    then show ?thesis using ih by simp
  qed
qed

lemma scatter_array_copied:
  assumes "scatter_array mp dptr count n array = Some array'"
    and "0 < count"
    and "i < n" and "0 \<le> mp (int i + 1)"
    and "\<forall>i'. i < i' \<and> i' < n \<longrightarrow> mp (int i' + 1) \<noteq> mp (int i + 1)"
  shows "nat (mp (int i + 1)) < length array \<and>
         nat (count * int i) + nat count \<le> length dptr \<and>
         take (nat count) (array' ! nat (mp (int i + 1))) =
           take (nat count) (drop (nat (count * int i)) dptr)"
  using assms
proof (induction n arbitrary: array')
  case 0
  then show ?case by simp
next
  case (Suc n)
  then obtain a where a: "scatter_array mp dptr count n array = Some a"
    by (auto simp: bind_eq_Some_conv)
  have la: "length a = length array" using scatter_array_frame[OF a] by simp
  let ?m = "mp (int i + 1)"
  show ?case
  proof (cases "i = n")
    case True
    then have sc: "scatter_components dptr ?m (count * int i) (nat count) a = Some array'"
      using Suc.prems(1,4) a by (auto simp: Let_def bind_eq_Some_conv as_int_Some)
    have c: "0 < nat count" using Suc.prems(2) by simp
    from scatter_components_closed[OF sc c]
    have m: "nat ?m < length a" and bnd: "nat (count * int i) + nat count \<le> length dptr"
      and a': "array' = a[nat ?m := take (nat count) (drop (nat (count * int i)) dptr) @
                 drop (nat count) (a ! nat ?m)]"
      by blast+
    have l: "length (take (nat count) (drop (nat (count * int i)) dptr)) = nat count"
      using bnd by simp
    have "take (nat count) (array' ! nat ?m) = take (nat count) (drop (nat (count * int i)) dptr)"
      unfolding a' using m l by simp
    then show ?thesis using m bnd la by simp
  next
    case False
    then have lt: "i < n" using Suc.prems(3) by simp
    have ih: "nat ?m < length array \<and>
         nat (count * int i) + nat count \<le> length dptr \<and>
         take (nat count) (a ! nat ?m) = take (nat count) (drop (nat (count * int i)) dptr)"
      using Suc.IH[OF a Suc.prems(2) lt Suc.prems(4)] Suc.prems(5) by simp
    have ne: "mp (int n + 1) \<noteq> ?m" using Suc.prems(5) lt by simp
    have "array' ! nat ?m = a ! nat ?m"
    proof (cases "0 \<le> mp (int n + 1)")
      case True
      then have "scatter_components dptr (mp (int n + 1)) (count * int n) (nat count) a = Some array'"
        using Suc.prems(1) a by (auto simp: Let_def bind_eq_Some_conv as_int_Some)
      from scatter_components_step[OF this] show ?thesis using ne Suc.prems(4) by simp
    next
      case False
      then show ?thesis using Suc.prems(1) a by (simp add: Let_def)
    qed
    then show ?thesis using ih by simp
  qed
qed

lemma scatter_vector_effect:
  assumes sv: "scatter_vector mp dptr (nat N) vector = Some vector'"
  shows "scatter_effect mp N 1 (map (\<lambda>x. [emb x]) vector) (map (\<lambda>x. [emb x]) vector')
           (map emb dptr)"
proof -
  have len: "length vector' = length vector" using sv by (rule scatter_vector_length)
  have unt: "vector' ! m = vector ! m" if "\<forall>t\<in>{1..N}. mp t \<noteq> int m" for m
  proof (rule scatter_vector_untouched[OF sv], intro allI impI)
    fix i assume "i < nat N"
    then have "int i + 1 \<in> {1..N}" by auto
    then show "mp (int i + 1) \<noteq> int m" using that by blast
  qed
  have cop: "nat (mp t) < length vector \<and>
        take (nat 1) (map (\<lambda>x. [emb x]) vector' ! nat (mp t)) =
          take (nat 1) (drop (nat (1 * (t - 1))) (map emb dptr)) \<and>
        drop (nat 1) (map (\<lambda>x. [emb x]) vector' ! nat (mp t)) =
          drop (nat 1) (map (\<lambda>x. [emb x]) vector ! nat (mp t))"
    if t: "t \<in> {1..N}" and m: "0 \<le> mp t" and last: "\<forall>t'\<in>{t<..N}. mp t' \<noteq> mp t" for t
  proof -
    let ?i = "nat (t - 1)"
    have it: "int ?i + 1 = t" and iN: "?i < nat N" using t by auto
    have later: "\<forall>i'. ?i < i' \<and> i' < nat N \<longrightarrow> mp (int i' + 1) \<noteq> mp (int ?i + 1)"
    proof (intro allI impI)
      fix i' assume "?i < i' \<and> i' < nat N"
      then have "int i' + 1 \<in> {t<..N}" using t by auto
      then show "mp (int i' + 1) \<noteq> mp (int ?i + 1)" using last it by simp
    qed
    have c: "nat (mp t) < length vector \<and> ?i < length dptr \<and> vector' ! nat (mp t) = dptr ! ?i"
      using scatter_vector_copied[OF sv iN _ later] m it by simp
    then have "take (Suc 0) (drop ?i (map emb dptr)) = [emb (dptr ! ?i)]"
      by (simp add: take_Suc_conv_app_nth)
    then show ?thesis using c len by simp
  qed
  have len': "length (map (\<lambda>x. [emb x]) vector') = length (map (\<lambda>x. [emb x]) vector)"
    using len by simp
  have unt': "map (\<lambda>x. [emb x]) vector' ! m = map (\<lambda>x. [emb x]) vector ! m"
    if "m < length (map (\<lambda>x. [emb x]) vector)" "\<forall>t\<in>{1..N}. mp t \<noteq> int m" for m
    using that unt len by simp
  have cop': "nat (mp t) < length (map (\<lambda>x. [emb x]) vector) \<and>
        take (nat 1) (map (\<lambda>x. [emb x]) vector' ! nat (mp t)) =
          take (nat 1) (drop (nat (1 * (t - 1))) (map emb dptr)) \<and>
        drop (nat 1) (map (\<lambda>x. [emb x]) vector' ! nat (mp t)) =
          drop (nat 1) (map (\<lambda>x. [emb x]) vector ! nat (mp t))"
    if "t \<in> {1..N}" "0 \<le> mp t" "\<forall>t'\<in>{t<..N}. mp t' \<noteq> mp t" for t
    using cop[OF that] by simp
  show ?thesis
    unfolding scatter_effect_def using len' unt' cop' by blast
qed

lemma scatter_array_effect:
  assumes sa: "scatter_array mp dptr count (nat N) array = Some array'" and cnt: "0 < count"
  shows "scatter_effect mp N count (map (map emb) array) (map (map emb) array')
           (map emb dptr)"
proof -
  have len: "length array' = length array"
    and tail: "\<forall>k<length array. drop (nat count) (array' ! k) = drop (nat count) (array ! k)"
    using scatter_array_frame[OF sa] by blast+
  have unt: "array' ! m = array ! m" if "\<forall>t\<in>{1..N}. mp t \<noteq> int m" for m
  proof (rule scatter_array_untouched[OF sa], intro allI impI)
    fix i assume "i < nat N"
    then have "int i + 1 \<in> {1..N}" by auto
    then show "mp (int i + 1) \<noteq> int m" using that by blast
  qed
  have cop: "nat (mp t) < length array \<and>
        take (nat count) (map (map emb) array' ! nat (mp t)) =
          take (nat count) (drop (nat (count * (t - 1))) (map emb dptr)) \<and>
        drop (nat count) (map (map emb) array' ! nat (mp t)) =
          drop (nat count) (map (map emb) array ! nat (mp t))"
    if t: "t \<in> {1..N}" and m: "0 \<le> mp t" and last: "\<forall>t'\<in>{t<..N}. mp t' \<noteq> mp t" for t
  proof -
    let ?i = "nat (t - 1)"
    have it: "int ?i + 1 = t" and it': "int ?i = t - 1" and iN: "?i < nat N" using t by auto
    have later: "\<forall>i'. ?i < i' \<and> i' < nat N \<longrightarrow> mp (int i' + 1) \<noteq> mp (int ?i + 1)"
    proof (intro allI impI)
      fix i' assume "?i < i' \<and> i' < nat N"
      then have "int i' + 1 \<in> {t<..N}" using t by auto
      then show "mp (int i' + 1) \<noteq> mp (int ?i + 1)" using last it by simp
    qed
    have c: "nat (mp t) < length array \<and>
         nat (count * (t - 1)) + nat count \<le> length dptr \<and>
         take (nat count) (array' ! nat (mp t)) =
           take (nat count) (drop (nat (count * (t - 1))) dptr)"
      using scatter_array_copied[OF sa cnt iN _ later] m it it' by simp
    then have "take (nat count) (map emb (array' ! nat (mp t))) =
          take (nat count) (drop (nat (count * (t - 1))) (map emb dptr))"
      by (simp add: take_map drop_map)
    moreover have "drop (nat count) (map emb (array' ! nat (mp t))) =
          drop (nat count) (map emb (array ! nat (mp t)))"
      using tail c by (simp add: drop_map)
    ultimately show ?thesis using c len by simp
  qed
  have len': "length (map (map emb) array') = length (map (map emb) array)"
    using len by simp
  have unt': "map (map emb) array' ! m = map (map emb) array ! m"
    if "m < length (map (map emb) array)" "\<forall>t\<in>{1..N}. mp t \<noteq> int m" for m
    using that unt len by simp
  have cop': "nat (mp t) < length (map (map emb) array) \<and>
        take (nat count) (map (map emb) array' ! nat (mp t)) =
          take (nat count) (drop (nat (count * (t - 1))) (map emb dptr)) \<and>
        drop (nat count) (map (map emb) array' ! nat (mp t)) =
          drop (nat count) (map (map emb) array ! nat (mp t))"
    if "t \<in> {1..N}" "0 \<le> mp t" "\<forall>t'\<in>{t<..N}. mp t' \<noteq> mp t" for t
    using cop[OF that] by simp
  show ?thesis
    unfolding scatter_effect_def using len' unt' cop' by blast
qed

lemma scatter_atoms_effect:
  assumes run: "lammps_scatter_atoms lmp name type count data = Some (ws, lmp')"
    and acc: "tag_enable (atom lmp) \<noteq> 0" "tag_consecutive (atom lmp) \<noteq> 0"
      "sint (natoms (atom lmp)) \<le> MAXSMALLINT" "map_style (atom lmp) \<noteq> 0"
    and f: "extract_atom (atom lmp) name = Some f"
    and cnt: "0 < count"
    and N: "N = sint (lammps_get_natoms lmp)"
  shows "\<exists>f'. ws = [] \<and> lmp' = store lmp name f' \<and> same_shape f f' \<and>
           scatter_effect (map_atom (atom lmp)) N count (rows f) (rows f') (elems data)"
proof -
  let ?mp = "map_atom (atom lmp)"
  have Nn: "sint (static_cast_int (natoms (atom lmp))) = N"
    using N acc(3) by (simp add: lammps_get_natoms_def)
  show ?thesis
  proof (cases "type = 0")
    case int: True
    show ?thesis
    proof (cases "count = 1")
      case True
      from run acc f int True obtain vector dptr vector' where
        "f = IntVector vector" "data = IntData dptr"
        "scatter_vector ?mp dptr (nat N) vector = Some vector'"
        "ws = []" "lmp' = store lmp name (IntVector vector')"
        unfolding Nn[symmetric]
        by (cases f; cases data)
           (auto simp: lammps_scatter_atoms_def Let_def bind_eq_Some_conv)
      then show ?thesis using scatter_vector_effect[of ?mp dptr N vector vector' I32] True
        by auto
    next
      case False
      from run acc f int False obtain array dptr array' where
        "f = IntArray array" "data = IntData dptr"
        "scatter_array ?mp dptr count (nat N) array = Some array'"
        "ws = []" "lmp' = store lmp name (IntArray array')"
        unfolding Nn[symmetric]
        by (cases f; cases data)
           (auto simp: lammps_scatter_atoms_def Let_def bind_eq_Some_conv)
      then show ?thesis using scatter_array_effect[of ?mp dptr count N array array' I32] cnt
        by auto
    qed
  next
    case dbl: False
    show ?thesis
    proof (cases "count = 1")
      case True
      from run acc f dbl True obtain vector dptr vector' where
        "f = DoubleVector vector" "data = DoubleData dptr"
        "scatter_vector ?mp dptr (nat N) vector = Some vector'"
        "ws = []" "lmp' = store lmp name (DoubleVector vector')"
        unfolding Nn[symmetric]
        by (cases f; cases data)
           (auto simp: lammps_scatter_atoms_def Let_def bind_eq_Some_conv)
      then show ?thesis using scatter_vector_effect[of ?mp dptr N vector vector' F64] True
        by auto
    next
      case False
      from run acc f dbl False obtain array dptr array' where
        "f = DoubleArray array" "data = DoubleData dptr"
        "scatter_array ?mp dptr count (nat N) array = Some array'"
        "ws = []" "lmp' = store lmp name (DoubleArray array')"
        unfolding Nn[symmetric]
        by (cases f; cases data)
           (auto simp: lammps_scatter_atoms_def Let_def bind_eq_Some_conv)
      then show ?thesis using scatter_array_effect[of ?mp dptr count N array array' F64] cnt
        by auto
    qed
  qed
qed

text \<open>The loops run with defined behaviour when every access is in range.\<close>

lemma scatter_vector_defined:
  assumes "\<forall>i<n. 0 \<le> mp (int i + 1) \<longrightarrow>
             nat (mp (int i + 1)) < length vector \<and> i < length dptr"
  shows "\<exists>vector'. scatter_vector mp dptr n vector = Some vector'"
  using assms
proof (induction n)
  case 0
  then show ?case by simp
next
  case (Suc n)
  then obtain v where v: "scatter_vector mp dptr n vector = Some v" by auto
  have lv: "length v = length vector" using v by (rule scatter_vector_length)
  show ?case
  proof (cases "0 \<le> mp (int n + 1)")
    case True
    then have "nat (mp (int n + 1)) < length v" and "n < length dptr"
      using Suc.prems lv by auto
    then show ?thesis using True v by (simp add: Let_def rd_def wr_def)
  next
    case False
    then show ?thesis using v by (simp add: Let_def)
  qed
qed

lemma scatter_components_lengths:
  assumes "scatter_components dptr m offset c array = Some array'"
  shows "length array' = length array \<and> (\<forall>k. length (array' ! k) = length (array ! k))"
  using assms
proof (induction c arbitrary: array')
  case 0
  then show ?case by simp
next
  case (Suc c)
  then obtain a where a: "scatter_components dptr m offset c array = Some a"
    by (auto simp: bind_eq_Some_conv)
  from Suc.prems a obtain v row row' where
      row: "rd a m = Some row" and row': "wr row (int c) v = Some row'"
      and arr: "wr a m row' = Some array'"
    by (auto simp: bind_eq_Some_conv)
  have ih: "length a = length array" "\<And>k. length (a ! k) = length (array ! k)"
    using Suc.IH[OF a] by auto
  have m: "0 \<le> m" "nat m < length a" and r: "row = a ! nat m"
    using row by (auto simp: rd_Some)
  have lr: "length row' = length row" using row' by (auto simp: wr_Some)
  have a': "array' = a[nat m := row']" using arr by (simp add: wr_Some)
  have "length (array' ! k) = length (array ! k)" for k
    unfolding a' using m lr r ih(2)[of k] by (cases "k = nat m") auto
  then show ?case unfolding a' using ih(1) by simp
qed

lemma scatter_components_defined:
  assumes "0 \<le> m" and "nat m < length array" and "c \<le> length (array ! nat m)"
    and "0 \<le> offset" and "nat offset + c \<le> length dptr" and "offset + int c \<le> INT_MAX"
  shows "\<exists>array'. scatter_components dptr m offset c array = Some array'"
  using assms
proof (induction c)
  case 0
  then show ?case by simp
next
  case (Suc c)
  then obtain a where a: "scatter_components dptr m offset c array = Some a" by auto
  have la: "length a = length array" and lr: "length (a ! nat m) = length (array ! nat m)"
    using scatter_components_lengths[OF a] by auto
  have 1: "rd dptr (offset + int c) = Some (dptr ! nat (offset + int c))"
    using Suc.prems(4,5) by (auto simp: rd_def)
  have 2: "as_int (offset + int c + 1) = Some (offset + int c + 1)"
    using Suc.prems(4,6) by (auto simp: as_int_def INT_MIN_def)
  have 3: "rd a m = Some (a ! nat m)"
    using Suc.prems(1,2) la by (auto simp: rd_def)
  have 4: "wr (a ! nat m) (int c) v = Some ((a ! nat m)[c := v])" for v
    using Suc.prems(3) lr by (auto simp: wr_def)
  have 5: "wr a m row = Some (a[nat m := row])" for row
    using Suc.prems(1,2) la by (auto simp: wr_def)
  show ?case by (simp add: a 1 2 3 4 5)
qed

lemma scatter_array_lengths:
  assumes "scatter_array mp dptr count n array = Some array'"
  shows "length array' = length array \<and> (\<forall>k. length (array' ! k) = length (array ! k))"
  using assms
proof (induction n arbitrary: array')
  case 0
  then show ?case by simp
next
  case (Suc n)
  then obtain a where a: "scatter_array mp dptr count n array = Some a"
    by (auto simp: bind_eq_Some_conv)
  have ih: "length a = length array \<and> (\<forall>k. length (a ! k) = length (array ! k))"
    using Suc.IH[OF a] .
  show ?case
  proof (cases "0 \<le> mp (int n + 1)")
    case True
    then have "scatter_components dptr (mp (int n + 1)) (count * int n) (nat count) a = Some array'"
      using Suc.prems a by (auto simp: Let_def bind_eq_Some_conv as_int_Some)
    from scatter_components_lengths[OF this] show ?thesis using ih by simp
  next
    case False
    then have "array' = a" using Suc.prems a by (simp add: Let_def)
    then show ?thesis using ih by simp
  qed
qed

lemma scatter_array_defined:
  assumes "0 < count"
    and "\<forall>i<n. 0 \<le> mp (int i + 1) \<longrightarrow>
           nat (mp (int i + 1)) < length array \<and>
           nat count \<le> length (array ! nat (mp (int i + 1))) \<and>
           count * (int i + 1) \<le> INT_MAX \<and>
           nat (count * (int i + 1)) \<le> length dptr"
  shows "\<exists>array'. scatter_array mp dptr count n array = Some array'"
  using assms
proof (induction n)
  case 0
  then show ?case by simp
next
  case (Suc n)
  then obtain a where a: "scatter_array mp dptr count n array = Some a" by auto
  have la: "length a = length array" and lr: "\<And>k. length (a ! k) = length (array ! k)"
    using scatter_array_lengths[OF a] by auto
  let ?m = "mp (int n + 1)"
  show ?case
  proof (cases "0 \<le> ?m")
    case True
    then have h: "nat ?m < length array" "nat count \<le> length (array ! nat ?m)"
        "count * (int n + 1) \<le> INT_MAX" "nat (count * (int n + 1)) \<le> length dptr"
      using Suc.prems(2) by auto
    have e: "count * (int n + 1) = count * int n + count" by (simp add: algebra_simps)
    have nn: "0 \<le> count * int n" using Suc.prems(1) by simp
    have lo: "INT_MIN \<le> count * int n" unfolding INT_MIN_def using nn by linarith
    have hi: "count * int n \<le> INT_MAX" using h(3) Suc.prems(1) unfolding e by linarith
    have o: "as_int (count * int n) = Some (count * int n)"
      using lo hi unfolding as_int_def by (simp only: simp_thms if_True)
    have "nat (count * int n) + nat count = nat (count * (int n + 1))"
      unfolding e using nn Suc.prems(1) by (simp add: nat_add_distrib)
    then have b: "nat (count * int n) + nat count \<le> length dptr" using h(4) by simp
    have c: "count * int n + int (nat count) \<le> INT_MAX"
      using h(3) Suc.prems(1) unfolding e by simp
    have "\<exists>array'. scatter_components dptr ?m (count * int n) (nat count) a = Some array'"
      by (rule scatter_components_defined) (use True h la lr nn b c in auto)
    then show ?thesis using True a o by (simp add: Let_def)
  next
    case False
    then show ?thesis using a by (simp add: Let_def)
  qed
qed

lemma scatter_atoms_defined:
  assumes acc: "tag_enable (atom lmp) \<noteq> 0" "tag_consecutive (atom lmp) \<noteq> 0"
      "sint (natoms (atom lmp)) \<le> MAXSMALLINT" "map_style (atom lmp) \<noteq> 0"
    and f: "extract_atom (atom lmp) name = Some f"
    and fits: "fits type count f data"
    and cnt: "0 < count"
    and N: "N = sint (lammps_get_natoms lmp)"
    and res: "\<forall>t\<in>{1..N}. 0 \<le> map_atom (atom lmp) t \<longrightarrow>
           nat (map_atom (atom lmp) t) < length (rows f) \<and>
           nat count \<le> length (rows f ! nat (map_atom (atom lmp) t)) \<and>
           count * t \<le> INT_MAX \<and> nat (count * t) \<le> length (elems data)"
  shows "\<exists>r. lammps_scatter_atoms lmp name type count data = Some r"
proof -
  let ?mp = "map_atom (atom lmp)"
  have Nn: "sint (static_cast_int (natoms (atom lmp))) = N"
    using N acc(3) by (simp add: lammps_get_natoms_def)
  have res': "0 \<le> ?mp (int i + 1) \<longrightarrow>
           nat (?mp (int i + 1)) < length (rows f) \<and>
           nat count \<le> length (rows f ! nat (?mp (int i + 1))) \<and>
           count * (int i + 1) \<le> INT_MAX \<and> nat (count * (int i + 1)) \<le> length (elems data)"
    if "i < nat N" for i
  proof -
    have "int i + 1 \<in> {1..N}" using that by auto
    then show ?thesis using res by blast
  qed
  have vec: "\<exists>v'. scatter_vector ?mp dptr (nat N) vector = Some v'"
    if "length vector = length (rows f)" "length dptr = length (elems data)" "count = 1"
    for vector :: "'a list" and dptr :: "'a list"
    by (rule scatter_vector_defined) (use res' that in force)
  have arr: "\<exists>a'. scatter_array ?mp dptr count (nat N) array = Some a'"
    if "length array = length (rows f)" "length dptr = length (elems data)"
       "\<And>k. k < length array \<Longrightarrow> length (array ! k) = length (rows f ! k)"
    for array :: "'a list list" and dptr :: "'a list"
    by (rule scatter_array_defined[OF cnt]) (use res' that in force)
  show ?thesis
  proof (cases f; cases data)
    fix v d assume c: "f = IntVector v" "data = IntData d"
    then have tc: "type = 0" "count = 1" using fits by auto
    obtain v' where "scatter_vector ?mp d (nat N) v = Some v'"
      using vec[of v d] c tc by auto
    then show ?thesis using acc f c tc Nn
      by (simp add: lammps_scatter_atoms_def Let_def)
  next
    fix a d assume c: "f = IntArray a" "data = IntData d"
    then have tc: "type = 0" "count \<noteq> 1" using fits by auto
    obtain a' where "scatter_array ?mp d count (nat N) a = Some a'"
      using arr[of a d] c by auto
    then show ?thesis using acc f c tc Nn
      by (simp add: lammps_scatter_atoms_def Let_def)
  next
    fix v d assume c: "f = DoubleVector v" "data = DoubleData d"
    then have tc: "type \<noteq> 0" "count = 1" using fits by auto
    obtain v' where "scatter_vector ?mp d (nat N) v = Some v'"
      using vec[of v d] c tc by auto
    then show ?thesis using acc f c tc Nn
      by (simp add: lammps_scatter_atoms_def Let_def)
  next
    fix a d assume c: "f = DoubleArray a" "data = DoubleData d"
    then have tc: "type \<noteq> 0" "count \<noteq> 1" using fits by auto
    obtain a' where "scatter_array ?mp d count (nat N) a = Some a'"
      using arr[of a d] c by auto
    then show ?thesis using acc f c tc Nn
      by (simp add: lammps_scatter_atoms_def Let_def)
  qed (use fits in auto)
qed
text \<open>
  C7. Take any world and any of its ranks \<open>r\<close> that passes the checks of scatter, for a
  known property whose storage and buffer fit \<^verbatim>\<open>type\<close> and \<^verbatim>\<open>count\<close>, a positive
  \<^verbatim>\<open>count\<close> and the atom count \<open>N\<close>, such that for every tag \<open>t\<close> in \<open>1..N\<close> that the
  lookup of the rank resolves, the slot \<open>map(t)\<close> exists and has \<open>count\<close> components and
  the source buffer holds the offsets below \<open>count * t\<close>, an \<^verbatim>\<open>int\<close>. Then the call on
  rank \<open>r\<close> returns, whatever the other ranks hold and whether they return early or not:
  its result is that of the rank run alone, there is nothing it waits for or receives.
  It prints nothing, and the state on return is the state before with the storage of
  the property replaced, all other fields and properties as they were. In the new
  storage, a slot that no tag in \<open>1..N\<close> resolves to keeps its value; for every tag \<open>t\<close>
  that resolves and to whose slot no later tag resolves, the slot holds the \<open>count\<close>
  values at source offset \<open>count * (t - 1)\<close>, and its further components keep their
  values.
\<close>

theorem scatter_locality:
  assumes r: "r < length world" and w: "world ! r = (lmp, data)"
    and acc: "tag_enable (atom lmp) \<noteq> 0" "tag_consecutive (atom lmp) \<noteq> 0"
      "sint (natoms (atom lmp)) \<le> MAXSMALLINT" "map_style (atom lmp) \<noteq> 0"
    and f: "extract_atom (atom lmp) name = Some f"
    and fits: "fits type count f data"
    and cnt: "0 < count"
    and N: "N = sint (lammps_get_natoms lmp)"
    and res: "\<forall>t\<in>{1..N}. 0 \<le> map_atom (atom lmp) t \<longrightarrow>
           nat (map_atom (atom lmp) t) < length (rows f) \<and>
           nat count \<le> length (rows f ! nat (map_atom (atom lmp) t)) \<and>
           count * t \<le> INT_MAX \<and> nat (count * t) \<le> length (elems data)"
  shows "\<exists>f'. scatter_all world name type count ! r =
             Some ([], lmp\<lparr>atom := (atom lmp)\<lparr>extract_atom :=
                          (extract_atom (atom lmp))(name := Some f')\<rparr>\<rparr>) \<and>
           same_shape f f' \<and>
           length (rows f') = length (rows f) \<and>
           (\<forall>m<length (rows f).
              (\<forall>t\<in>{1..N}. map_atom (atom lmp) t \<noteq> int m) \<longrightarrow> rows f' ! m = rows f ! m) \<and>
           (\<forall>t\<in>{1..N}. 0 \<le> map_atom (atom lmp) t \<longrightarrow>
              (\<forall>t'\<in>{t<..N}. map_atom (atom lmp) t' \<noteq> map_atom (atom lmp) t) \<longrightarrow>
              take (nat count) (rows f' ! nat (map_atom (atom lmp) t)) =
                take (nat count) (drop (nat (count * (t - 1))) (elems data)) \<and>
              drop (nat count) (rows f' ! nat (map_atom (atom lmp) t)) =
                drop (nat count) (rows f ! nat (map_atom (atom lmp) t)))"
proof -
  obtain ws lmp' where run: "lammps_scatter_atoms lmp name type count data = Some (ws, lmp')"
    using scatter_atoms_defined[OF acc f fits cnt N res] by force
  from scatter_atoms_effect[OF run acc f cnt N] obtain f' where
      ws: "ws = []" and lmp': "lmp' = store lmp name f'" and sh: "same_shape f f'"
      and eff: "scatter_effect (map_atom (atom lmp)) N count (rows f) (rows f') (elems data)"
    by blast
  have "scatter_all world name type count ! r = lammps_scatter_atoms lmp name type count data"
    using r w by (simp add: scatter_all_def)
  then have 1: "scatter_all world name type count ! r =
             Some ([], lmp\<lparr>atom := (atom lmp)\<lparr>extract_atom :=
                          (extract_atom (atom lmp))(name := Some f')\<rparr>\<rparr>)"
    using run ws lmp' by (simp add: store_def)
  show ?thesis
    using 1 sh eff unfolding scatter_effect_def by blast
qed

text \<open>
  The integer path with \<open>count = 3\<close>, beside a rank that returns early for want of an atom
  map, and the double path with \<open>count = 1\<close>. Both lookups resolve one of two tags.
\<close>

theorem scatter_locality_witness:
  "(\<exists>f'. scatter_all [(no_map int3_rank, IntData []),
                      (partial_rank, IntData [10, 11, 12, 20, 21, 22])] ''x'' 0 3 ! 1 =
            Some ([], partial_rank\<lparr>atom := (atom partial_rank)\<lparr>extract_atom :=
                        (extract_atom (atom partial_rank))(''x'' := Some f')\<rparr>\<rparr>) \<and>
         rows f' ! 0 = [I32 1, I32 2, I32 3] \<and>
         rows f' ! 1 = [I32 10, I32 11, I32 12]) \<and>
   (\<exists>f'. scatter_all [(charge_rank, DoubleData [dbl 7, dbl 8])] ''q'' 1 1 ! 0 =
            Some ([], charge_rank\<lparr>atom := (atom charge_rank)\<lparr>extract_atom :=
                        (extract_atom (atom charge_rank))(''q'' := Some f')\<rparr>\<rparr>) \<and>
         rows f' = [[F64 (dbl 8)]])"
proof -
  let ?world = "[(no_map int3_rank, IntData []),
                 (partial_rank, IntData [10, 11, 12, 20, 21, 22])]"
  let ?data = "IntData [10, 11, 12, 20, 21, 22]"
  let ?f = "IntArray [[1, 2, 3], [4, 5, 6]]"
  have N: "2 = sint (lammps_get_natoms partial_rank)"
    by (simp add: lammps_get_natoms_def partial_rank_def rank_def MAXSMALLINT_def
        static_cast_int_def)
  have f: "extract_atom (atom partial_rank) ''x'' = Some ?f"
    by (simp add: partial_rank_def rank_def)
  have res: "\<forall>t\<in>{1..2}. 0 \<le> map_atom (atom partial_rank) t \<longrightarrow>
           nat (map_atom (atom partial_rank) t) < length (rows ?f) \<and>
           nat 3 \<le> length (rows ?f ! nat (map_atom (atom partial_rank) t)) \<and>
           3 * t \<le> INT_MAX \<and> nat (3 * t) \<le> length (elems ?data)"
    by (auto simp: partial_rank_def rank_def INT_MAX_def)
  from scatter_locality[of 1 ?world partial_rank ?data "''x''" ?f 0 3 2, OF _ _ _ _ _ _ f _ _ N res]
  obtain f' where
      run: "scatter_all ?world ''x'' 0 3 ! 1 =
            Some ([], partial_rank\<lparr>atom := (atom partial_rank)\<lparr>extract_atom :=
                        (extract_atom (atom partial_rank))(''x'' := Some f')\<rparr>\<rparr>)"
      and len: "length (rows f') = length (rows ?f)"
      and sh: "same_shape ?f f'"
      and unt: "\<forall>m<length (rows ?f).
              (\<forall>t\<in>{1..2}. map_atom (atom partial_rank) t \<noteq> int m) \<longrightarrow>
              rows f' ! m = rows ?f ! m"
      and cop: "\<forall>t\<in>{1..2}. 0 \<le> map_atom (atom partial_rank) t \<longrightarrow>
              (\<forall>t'\<in>{t<..2}. map_atom (atom partial_rank) t' \<noteq> map_atom (atom partial_rank) t) \<longrightarrow>
              take (nat 3) (rows f' ! nat (map_atom (atom partial_rank) t)) =
                take (nat 3) (drop (nat (3 * (t - 1))) (elems ?data)) \<and>
              drop (nat 3) (rows f' ! nat (map_atom (atom partial_rank) t)) =
                drop (nat 3) (rows ?f ! nat (map_atom (atom partial_rank) t))"
    by (auto simp: partial_rank_def rank_def MAXSMALLINT_def)
  have 0: "rows f' ! 0 = [I32 1, I32 2, I32 3]"
    using unt by (simp add: partial_rank_def rank_def)
  have "take 3 (rows f' ! 1) = [I32 10, I32 11, I32 12] \<and> drop 3 (rows f' ! 1) = []"
    using bspec[OF cop, of 1] by (simp add: partial_rank_def rank_def)
  then have 1: "rows f' ! 1 = [I32 10, I32 11, I32 12]"
    by (metis append_Nil2 append_take_drop_id)
  let ?world1 = "[(charge_rank, DoubleData [dbl 7, dbl 8])]"
  let ?data1 = "DoubleData [dbl 7, dbl 8]"
  let ?q = "DoubleVector [dbl 5]"
  have N1: "2 = sint (lammps_get_natoms charge_rank)"
    by (simp add: lammps_get_natoms_def charge_rank_def rank_def MAXSMALLINT_def
        static_cast_int_def)
  have q: "extract_atom (atom charge_rank) ''q'' = Some ?q"
    by (simp add: charge_rank_def rank_def)
  have res1: "\<forall>t\<in>{1..2}. 0 \<le> map_atom (atom charge_rank) t \<longrightarrow>
           nat (map_atom (atom charge_rank) t) < length (rows ?q) \<and>
           nat 1 \<le> length (rows ?q ! nat (map_atom (atom charge_rank) t)) \<and>
           1 * t \<le> INT_MAX \<and> nat (1 * t) \<le> length (elems ?data1)"
    by (auto simp: charge_rank_def rank_def INT_MAX_def)
  from scatter_locality[of 0 ?world1 charge_rank ?data1 "''q''" ?q 1 1 2,
      OF _ _ _ _ _ _ q _ _ N1 res1]
  obtain q' where
      run1: "scatter_all ?world1 ''q'' 1 1 ! 0 =
            Some ([], charge_rank\<lparr>atom := (atom charge_rank)\<lparr>extract_atom :=
                        (extract_atom (atom charge_rank))(''q'' := Some q')\<rparr>\<rparr>)"
      and len1: "length (rows q') = length (rows ?q)"
      and cop1: "\<forall>t\<in>{1..2}. 0 \<le> map_atom (atom charge_rank) t \<longrightarrow>
              (\<forall>t'\<in>{t<..2}. map_atom (atom charge_rank) t' \<noteq> map_atom (atom charge_rank) t) \<longrightarrow>
              take (nat 1) (rows q' ! nat (map_atom (atom charge_rank) t)) =
                take (nat 1) (drop (nat (1 * (t - 1))) (elems ?data1)) \<and>
              drop (nat 1) (rows q' ! nat (map_atom (atom charge_rank) t)) =
                drop (nat 1) (rows ?q ! nat (map_atom (atom charge_rank) t))"
    by (auto simp: charge_rank_def rank_def MAXSMALLINT_def)
  have "take 1 (rows q' ! 0) = [F64 (dbl 8)] \<and> drop 1 (rows q' ! 0) = []"
    using bspec[OF cop1, of 2] by (simp add: charge_rank_def rank_def)
  then have "rows q' ! 0 = [F64 (dbl 8)]"
    by (metis append_Nil2 append_take_drop_id)
  moreover have "length (rows q') = 1" using len1 by simp
  ultimately have 2: "rows q' = [[F64 (dbl 8)]]"
    by (cases "rows q'") auto
  show ?thesis using run 0 1 run1 2 by blast
qed
subsection \<open>Adding doubles\<close>

text \<open>
  The addition at work on small doubles: a tie rounded up and a tie rounded down to the
  even significand, an inexact sum, the step from the subnormal to the normal numbers,
  an exact sum, and the sign of a zero sum.
\<close>

lemma fadd_examples:
  "fadd (Double False 2 1) (Double False 1 1) = Double False 2 2251799813685250 \<and>
   fadd (Double False 2 0) (Double False 1 1) = Double False 2 2251799813685248 \<and>
   fadd (Double False 2 3) (Double False 1 1) = Double False 2 2251799813685252 \<and>
   fadd (Double False 0 4503599627370495) (Double False 0 1) = Double False 1 0 \<and>
   fadd (Double False 0 3) (Double False 0 5) = Double False 0 8 \<and>
   fadd (Double True 3 7) (Double False 3 7) = Double False 0 0 \<and>
   fadd (Double True 0 0) (Double True 0 0) = Double True 0 0 \<and>
   fadd (Double True 0 0) (Double False 0 0) = Double False 0 0 \<and>
   fadd (Double False 3 5) (Double True 1 9) = Double False 2 2251799813685254 \<and>
   fadd (Double True 2 1) (Double True 1 1) = Double True 2 2251799813685250 \<and>
   fadd (Double False 5 0) (Double False 1 0) = Double False 5 281474976710656 \<and>
   fadd (Double False 5 0) (Double False 1 1) = Double False 5 281474976710656 \<and>
   fadd (Double False 4 4503599627370495) (Double False 1 2251799813685248) = Double False 5 422212465065984"
  by (simp add: fadd_def is_nan_def is_inf_def units_def magnitude_def round_units_def
      shift.simps Let_def)

text \<open>Adding zero to an ordinary double gives back its bit pattern.\<close>

lemma shift_exact:
  assumes "2 ^ 52 \<le> m" and "m < 2 ^ 53"
  shows "shift (m * 2 ^ e) = e"
proof (induction e)
  case 0
  show ?case using assms(2) by (subst shift.simps) simp
next
  case (Suc e)
  have "2 ^ 53 \<le> m * 2" using assms(1) by simp
  also have "\<dots> \<le> m * 2 * 2 ^ e" by simp
  finally have "\<not> m * 2 ^ Suc e < 2 ^ 53" by (simp add: mult.assoc)
  moreover have "m * 2 ^ Suc e div 2 = m * 2 ^ e" by simp
  ultimately show ?case using Suc by (subst shift.simps) (simp only: if_False)
qed

lemma round_units_normal:
  assumes m: "2 ^ 52 \<le> m" "m < 2 ^ 53" and e: "e + 1 < 2047"
  shows "round_units s (m * 2 ^ e) = Double s (e + 1) (m - 2 ^ 52)"
proof (cases e)
  case 0
  then show ?thesis using m unfolding round_units_def by simp
next
  case (Suc e')
  let ?a = "m * 2 ^ e"
  have "2 ^ 53 \<le> m * 2" using m(1) by simp
  also have "\<dots> \<le> m * 2 * 2 ^ e'" by simp
  finally have big: "\<not> ?a < 2 ^ 53" unfolding Suc by (simp add: mult.assoc)
  then have big': "\<not> ?a < 2 ^ 52" by simp
  have k: "shift ?a = e" using m by (rule shift_exact)
  have q: "?a div 2 ^ e = m" and r: "?a mod 2 ^ e = 0" by simp_all
  have half: "(0::nat) < 2 ^ (e - 1)" by simp
  have ne: "m \<noteq> 2 ^ 53" using m(2) by simp
  have e': "\<not> 2047 \<le> e + 1" using e by simp
  show ?thesis
    unfolding round_units_def Let_def k q r
    using big big' half ne e' by (simp only: if_False not_less_zero simp_thms less_irrefl)
       (use half in auto)
qed

lemma round_units_magnitude:
  assumes "binary64 d" and "exponent d < 2047" and "magnitude d \<noteq> 0"
  shows "round_units s (magnitude d) = Double s (exponent d) (fraction d)"
proof (cases "exponent d")
  case 0
  then show ?thesis using assms(1) unfolding magnitude_def round_units_def binary64_def by simp
next
  case (Suc e)
  have f: "fraction d < 2 ^ 52" using assms(1) unfolding binary64_def by simp
  have "round_units s ((2 ^ 52 + fraction d) * 2 ^ e) =
          Double s (e + 1) (2 ^ 52 + fraction d - 2 ^ 52)"
    by (rule round_units_normal) (use f assms(2) Suc in simp_all)
  then show ?thesis using Suc unfolding magnitude_def by simp
qed

lemma magnitude_0:
  "magnitude d = 0 \<longleftrightarrow> exponent d = 0 \<and> fraction d = 0"
  unfolding magnitude_def by simp

lemma fadd_ordinary_zero:
  assumes "ordinary x"
  shows "fadd x (Double False 0 0) = x \<and> fadd (Double False 0 0) x = x"
proof -
  let ?z = "Double False 0 0"
  have b: "binary64 x" and nn: "\<not> is_nan x" and nz: "x \<noteq> Double True 0 0"
    using assms unfolding ordinary_def by simp_all
  have z: "\<not> is_nan ?z" "\<not> is_inf ?z" "units ?z = 0" "negative ?z = False"
    unfolding is_nan_def is_inf_def units_def magnitude_def by simp_all
  show ?thesis
  proof (cases "is_inf x")
    case True
    then show ?thesis unfolding fadd_def using nn z by simp
  next
    case False
    have fin: "exponent x < 2047"
      using b nn False unfolding binary64_def is_nan_def is_inf_def by auto
    have s: "fadd x ?z = (if units x = 0 then Double False 0 0
                           else round_units (units x < 0) (nat \<bar>units x\<bar>))"
      and s': "fadd ?z x = (if units x = 0 then Double False 0 0
                           else round_units (units x < 0) (nat \<bar>units x\<bar>))"
      unfolding fadd_def using nn False z by (simp_all add: Let_def)
    show ?thesis
    proof (cases "magnitude x = 0")
      case True
      then have "exponent x = 0" "fraction x = 0" using magnitude_0 by simp_all
      then have "x = Double (negative x) 0 0" by (cases x) simp
      then have "x = ?z" using nz by (cases "negative x") simp_all
      moreover have "units x = 0" using True unfolding units_def by simp
      ultimately show ?thesis using s s' by simp
    next
      case False
      have u: "units x \<noteq> 0" "(units x < 0) = negative x" "nat \<bar>units x\<bar> = magnitude x"
        using False unfolding units_def by auto
      have "round_units (negative x) (magnitude x) = x"
        using round_units_magnitude[OF b fin False, of "negative x"] by simp
      then show ?thesis using s s' u by simp
    qed
  qed
qed

lemma plus_double_zero:
  assumes "ordinary x"
  shows "x + 0 = x" and "0 + x = x"
  using fadd_ordinary_zero[OF assms] unfolding plus_double_def zero_double_def by simp_all

lemma ordinary_zero: "ordinary 0"
  unfolding ordinary_def zero_double_def binary64_def is_nan_def by simp

lemma ordinary_number_zero_of: "ordinary_number (zero_of type)"
  unfolding zero_of_def by (simp add: ordinary_zero)

lemma ordinary_dbl:
  "ordinary (dbl 1)" "ordinary (dbl 2)" "ordinary (dbl 3)"
  "ordinary (dbl 4)" "ordinary (dbl 5)" "ordinary (dbl 6)"
  by (simp_all add: dbl_def bits.simps ordinary_def binary64_def is_nan_def)
subsection \<open>The gather loops and the reduction\<close>

lemma those_map_nth:
  assumes "those (map f xs) = Some ys"
  shows "length ys = length xs \<and> (\<forall>i<length xs. f (xs ! i) = Some (ys ! i))"
  using assms
proof (induction xs arbitrary: ys)
  case Nil
  then show ?case by simp
next
  case (Cons x xs)
  from Cons.prems obtain y ys' where y: "f x = Some y" and ys': "those (map f xs) = Some ys'"
    and ys: "ys = y # ys'"
    by (auto split: option.splits)
  have ih: "length ys' = length xs \<and> (\<forall>i<length xs. f (xs ! i) = Some (ys' ! i))"
    using Cons.IH[OF ys'] .
  show ?case unfolding ys using y ih by (auto simp: nth_Cons split: nat.split)
qed

lemma foldl_map2_length:
  assumes "length c = n" and "\<forall>x\<in>set cs. length x = n"
  shows "length (foldl (map2 (+)) c cs) = n"
  using assms by (induction cs arbitrary: c) simp_all

lemma foldl_map2_nth:
  assumes "length c = n" and "\<forall>x\<in>set cs. length x = n" and "k < n"
  shows "foldl (map2 (+)) c cs ! k = foldl (+) (c ! k) (map (\<lambda>x. x ! k) cs)"
  using assms
proof (induction cs arbitrary: c)
  case Nil
  then show ?case by simp
next
  case (Cons x cs)
  have l: "length (map2 (+) c x) = n" using Cons.prems by simp
  have "foldl (map2 (+)) (map2 (+) c x) cs ! k =
        foldl (+) (map2 (+) c x ! k) (map (\<lambda>x. x ! k) cs)"
    by (rule Cons.IH[OF l]) (use Cons.prems in simp_all)
  moreover have "map2 (+) c x ! k = c ! k + x ! k" using Cons.prems by simp
  ultimately show ?case by simp
qed

text \<open>
  Adding values of which all but one are zero: \<open>z\<close> is the zero, and the one value \<open>v\<close>
  is not changed by adding \<open>z\<close>.
\<close>

lemma foldl_plus_zeros:
  fixes a z :: "'a::plus"
  assumes "a + z = a" and "\<forall>x\<in>set xs. x = z"
  shows "foldl (+) a xs = a"
  using assms by (induction xs) simp_all

lemma foldl_plus_single:
  fixes v z :: "'a::plus"
  assumes zz: "z + z = z" and zv: "z + v = v" and vz: "v + z = v"
    and i: "i < length xs" "xs ! i = v"
    and others: "\<forall>q<length xs. q \<noteq> i \<longrightarrow> xs ! q = z"
  shows "foldl (+) z xs = v"
  using i others
proof (induction xs arbitrary: i)
  case Nil
  then show ?case by simp
next
  case (Cons x xs)
  have rest: "xs ! q = (x # xs) ! Suc q" for q by simp
  show ?case
  proof (cases i)
    case 0
    have x: "x = v" using Cons.prems(2) unfolding 0 by simp
    have "\<forall>y\<in>set xs. y = z"
    proof
      fix y assume "y \<in> set xs"
      then obtain q where q: "q < length xs" "xs ! q = y" by (auto simp: in_set_conv_nth)
      have "Suc q < length (x # xs) \<and> Suc q \<noteq> i" using q(1) 0 by simp
      then have "(x # xs) ! Suc q = z" using Cons.prems(3) by blast
      then show "y = z" using q(2) unfolding rest by simp
    qed
    then have "foldl (+) v xs = v" using vz by (rule foldl_plus_zeros[rotated])
    then show ?thesis unfolding x by (simp only: foldl.simps zv)
  next
    case (Suc i')
    have "0 < length (x # xs) \<and> 0 \<noteq> i" using Suc by simp
    then have "(x # xs) ! 0 = z" using Cons.prems(3) by blast
    then have x: "x = z" by simp
    have i': "i' < length xs" "xs ! i' = v" using Cons.prems(1,2) unfolding Suc by simp_all
    have o: "\<forall>q<length xs. q \<noteq> i' \<longrightarrow> xs ! q = z"
    proof (intro allI impI)
      fix q assume q: "q < length xs" "q \<noteq> i'"
      have "Suc q < length (x # xs) \<and> Suc q \<noteq> i" using q Suc by simp
      then have "(x # xs) ! Suc q = z" using Cons.prems(3) by blast
      then show "xs ! q = z" unfolding rest by simp
    qed
    have "foldl (+) z xs = v" using Cons.IH[OF i' o] .
    then show ?thesis unfolding x by (simp only: foldl.simps zz)
  qed
qed

lemma reduce_single:
  fixes z :: "'a::plus"
  assumes zz: "z + z = z" and zv: "z + xs ! o' = xs ! o'" and vz: "xs ! o' + z = xs ! o'"
    and ow: "o' < length xs"
    and others: "\<forall>q<length xs. q \<noteq> o' \<longrightarrow> xs ! q = z"
  shows "foldl (+) (hd xs) (tl xs) = xs ! o'"
proof -
  obtain x rest where xs: "xs = x # rest" using ow by (cases xs) auto
  have nth: "rest ! q = xs ! Suc q" for q unfolding xs by simp
  have ht: "foldl (+) (hd xs) (tl xs) = foldl (+) x rest" unfolding xs by simp
  show ?thesis
  proof (cases o')
    case 0
    have x: "xs ! o' = x" unfolding 0 xs by simp
    have "\<forall>y\<in>set rest. y = z"
    proof
      fix y assume "y \<in> set rest"
      then obtain q where q: "q < length rest" "rest ! q = y" by (auto simp: in_set_conv_nth)
      have "Suc q < length xs \<and> Suc q \<noteq> o'" using q(1) 0 unfolding xs by simp
      then have "xs ! Suc q = z" using others by blast
      then show "y = z" using q(2) unfolding nth by simp
    qed
    then have "foldl (+) x rest = x" using vz[unfolded x] by (rule foldl_plus_zeros[rotated])
    then show ?thesis unfolding ht x .
  next
    case (Suc i)
    have "0 < length xs \<and> 0 \<noteq> o'" using Suc unfolding xs by simp
    then have "xs ! 0 = z" using others by blast
    then have x: "x = z" unfolding xs by simp
    have "foldl (+) z rest = xs ! o'"
    proof (rule foldl_plus_single[OF zz zv vz])
      show "i < length rest" using ow unfolding Suc xs by simp
      show "rest ! i = xs ! o'" unfolding Suc xs by simp
      show "\<forall>q<length rest. q \<noteq> i \<longrightarrow> rest ! q = z"
      proof (intro allI impI)
        fix q assume q: "q < length rest" "q \<noteq> i"
        have "Suc q < length xs \<and> Suc q \<noteq> o'" using q unfolding Suc xs by simp
        then have "xs ! Suc q = z" using others by blast
        then show "rest ! q = z" unfolding nth by simp
      qed
    qed
    then show ?thesis unfolding ht x .
  qed
qed

lemma receive_Some:
  "receive recv data = Some d \<longleftrightarrow>
     length recv \<le> length data \<and> d = recv @ drop (length recv) data"
  unfolding receive_def by (cases "length recv \<le> length data") auto

lemma allreduce_Cons:
  "allreduce (copy # copies) datas =
     (if list_all (\<lambda>c. length c = length copy) (copy # copies)
      then those (map (receive (foldl (map2 (+)) copy copies)) datas)
      else None)"
  unfolding allreduce_def by (simp only: list.case MPI_Allreduce_SUM.simps)

lemma allreduce_Some:
  assumes "allreduce (copy # copies) datas = Some ds"
  shows "(\<forall>c\<in>set (copy # copies). length c = length copy) \<and>
         length ds = length datas \<and>
         (\<forall>r<length datas. length copy \<le> length (datas ! r) \<and>
            ds ! r = foldl (map2 (+)) copy copies @ drop (length copy) (datas ! r))"
proof -
  let ?n = "length copy"
  let ?s = "foldl (map2 (+)) copy copies"
  have all: "list_all (\<lambda>c. length c = ?n) (copy # copies)"
  proof (rule ccontr)
    assume "\<not> ?thesis"
    then have "allreduce (copy # copies) datas = None"
      unfolding allreduce_Cons by (simp only: if_False)
    then show False using assms by simp
  qed
  have th: "those (map (receive ?s) datas) = Some ds"
    using assms unfolding allreduce_Cons using all by (simp only: if_True)
  have eq: "\<forall>c\<in>set (copy # copies). length c = ?n"
    using all unfolding list_all_iff .
  have ls: "length ?s = ?n"
    by (rule foldl_map2_length) (use eq in simp_all)
  from those_map_nth[OF th]
  have l: "length ds = length datas"
    and r: "\<forall>r<length datas. receive ?s (datas ! r) = Some (ds ! r)"
    by blast+
  have "length copy \<le> length (datas ! r) \<and> ds ! r = ?s @ drop (length copy) (datas ! r)"
    if "r < length datas" for r
    using r that ls unfolding receive_Some by metis
  then show ?thesis using eq l by blast
qed

lemma block_unique:
  fixes count :: int
  assumes "0 < count" and "0 \<le> j" and "j < count"
    and "count * a \<le> count * b + j" and "count * b + j < count * a + count"
  shows "a = b"
proof -
  have "count * a < count * (b + 1)"
    using assms(3,4) by (simp add: distrib_left)
  then have 1: "a < b + 1" using assms(1) by (simp add: mult_less_cancel_left_pos)
  have "count * b < count * (a + 1)"
    using assms(2,5) by (simp add: distrib_left)
  then have 2: "b < a + 1" using assms(1) by (simp add: mult_less_cancel_left_pos)
  show ?thesis using 1 2 by simp
qed

lemma gather_vector_length:
  "gather_vector tg vector n copy = Some copy' \<Longrightarrow> length copy' = length copy"
proof (induction n arbitrary: copy')
  case 0
  then show ?case by simp
next
  case (Suc n)
  from Suc.prems obtain c t v where c: "gather_vector tg vector n copy = Some c"
    and w: "wr c (t - 1) v = Some copy'"
    by (auto simp: bind_eq_Some_conv as_int_Some)
  show ?case using Suc.IH[OF c] w by (simp add: wr_Some)
qed

lemma gather_vector_untouched:
  assumes "gather_vector tg vector n copy = Some copy'"
    and "\<forall>i<n. tg ! i - 1 \<noteq> int k"
  shows "copy' ! k = copy ! k"
  using assms
proof (induction n arbitrary: copy')
  case 0
  then show ?case by simp
next
  case (Suc n)
  from Suc.prems(1) obtain c t v where c: "gather_vector tg vector n copy = Some c"
    and t: "rd tg (int n) = Some t"
    and w: "wr c (t - 1) v = Some copy'"
    by (auto simp: bind_eq_Some_conv as_int_Some)
  have ih: "c ! k = copy ! k" using Suc.IH[OF c] Suc.prems(2) by simp
  have tt: "t = tg ! n" using t by (simp add: rd_Some)
  have "t - 1 \<noteq> int k" using Suc.prems(2) tt by simp
  then have "copy' ! k = c ! k" using w by (auto simp: wr_Some)
  then show ?case using ih by simp
qed

lemma gather_vector_written:
  assumes "gather_vector tg vector n copy = Some copy'"
    and "i < n"
    and "\<forall>i'. i < i' \<and> i' < n \<longrightarrow> tg ! i' \<noteq> tg ! i"
  shows "i < length tg \<and> i < length vector \<and> 1 \<le> tg ! i \<and>
         nat (tg ! i - 1) < length copy \<and> copy' ! nat (tg ! i - 1) = vector ! i"
  using assms
proof (induction n arbitrary: copy')
  case 0
  then show ?case by simp
next
  case (Suc n)
  from Suc.prems(1) obtain c t v where c: "gather_vector tg vector n copy = Some c"
    and t: "rd tg (int n) = Some t" and v: "rd vector (int n) = Some v"
    and w: "wr c (t - 1) v = Some copy'"
    by (auto simp: bind_eq_Some_conv as_int_Some)
  have lc: "length c = length copy" using c by (rule gather_vector_length)
  have tt: "t = tg ! n" "n < length tg" using t by (auto simp: rd_Some)
  have vv: "v = vector ! n" "n < length vector" using v by (auto simp: rd_Some)
  have ww: "0 \<le> t - 1" "nat (t - 1) < length c" "copy' = c[nat (t - 1) := v]"
    using w by (auto simp: wr_Some)
  show ?case
  proof (cases "i = n")
    case True
    then show ?thesis using tt vv ww lc by simp
  next
    case False
    then have lt: "i < n" using Suc.prems(2) by simp
    have ih: "i < length tg \<and> i < length vector \<and> 1 \<le> tg ! i \<and>
         nat (tg ! i - 1) < length copy \<and> c ! nat (tg ! i - 1) = vector ! i"
      using Suc.IH[OF c lt] Suc.prems(3) by simp
    have "tg ! n \<noteq> tg ! i" using Suc.prems(3) lt by simp
    moreover have "0 \<le> tg ! i - 1" using ih by simp
    ultimately have "nat (t - 1) \<noteq> nat (tg ! i - 1)"
      using tt(1) ww(1) by (simp add: eq_nat_nat_iff)
    then have "copy' ! nat (tg ! i - 1) = c ! nat (tg ! i - 1)" using ww(3) by simp
    then show ?thesis using ih by simp
  qed
qed

lemma gather_components_effect:
  assumes "gather_components col array i offset c copy = Some copy'"
  shows "length copy' = length copy \<and>
         (\<forall>k. \<not> (offset \<le> int k \<and> int k < offset + int c) \<longrightarrow> copy' ! k = copy ! k) \<and>
         (\<forall>j<c. 0 \<le> i \<and> nat i < length array \<and>
                 0 \<le> col (int j) \<and> nat (col (int j)) < length (array ! nat i) \<and>
                 0 \<le> offset + int j \<and> nat (offset + int j) < length copy \<and>
                 copy' ! nat (offset + int j) = array ! nat i ! nat (col (int j)))"
  using assms
proof (induction c arbitrary: copy')
  case 0
  then show ?case by simp
next
  case (Suc c)
  from Suc.prems obtain cp row v where cp: "gather_components col array i offset c copy = Some cp"
    and row: "rd array i = Some row" and v: "rd row (col (int c)) = Some v"
    and w: "wr cp (offset + int c) v = Some copy'"
    by (auto simp: bind_eq_Some_conv as_int_Some)
  have ih: "length cp = length copy"
    "\<And>k. \<not> (offset \<le> int k \<and> int k < offset + int c) \<Longrightarrow> cp ! k = copy ! k"
    "\<And>j. j < c \<Longrightarrow> 0 \<le> i \<and> nat i < length array \<and>
                 0 \<le> col (int j) \<and> nat (col (int j)) < length (array ! nat i) \<and>
                 0 \<le> offset + int j \<and> nat (offset + int j) < length copy \<and>
                 cp ! nat (offset + int j) = array ! nat i ! nat (col (int j))"
    using Suc.IH[OF cp] by blast+
  have rr: "0 \<le> i" "nat i < length array" "row = array ! nat i"
    using row by (auto simp: rd_Some)
  have vv: "0 \<le> col (int c)" "nat (col (int c)) < length row" "v = row ! nat (col (int c))"
    using v by (auto simp: rd_Some)
  have ww: "0 \<le> offset + int c" "nat (offset + int c) < length cp"
    "copy' = cp[nat (offset + int c) := v]"
    using w by (auto simp: wr_Some)
  have 1: "length copy' = length copy" using ww(3) ih(1) by simp
  have 2: "copy' ! k = copy ! k" if "\<not> (offset \<le> int k \<and> int k < offset + int (Suc c))" for k
  proof -
    have "int k \<noteq> offset + int c" using that by auto
    then have "k \<noteq> nat (offset + int c)" using ww(1) by auto
    then have "copy' ! k = cp ! k" using ww(3) by simp
    moreover have "cp ! k = copy ! k" using that by (intro ih(2)) auto
    ultimately show ?thesis by simp
  qed
  have 3: "0 \<le> i \<and> nat i < length array \<and>
                 0 \<le> col (int j) \<and> nat (col (int j)) < length (array ! nat i) \<and>
                 0 \<le> offset + int j \<and> nat (offset + int j) < length copy \<and>
                 copy' ! nat (offset + int j) = array ! nat i ! nat (col (int j))"
    if "j < Suc c" for j
  proof (cases "j = c")
    case True
    then show ?thesis using rr vv ww ih(1) by simp
  next
    case False
    then have jc: "j < c" using that by simp
    have "nat (offset + int j) \<noteq> nat (offset + int c)" using ih(3)[OF jc] jc by auto
    then have "copy' ! nat (offset + int j) = cp ! nat (offset + int j)" using ww(3) by simp
    then show ?thesis using ih(3)[OF jc] by simp
  qed
  show ?case using 1 2 3 by blast
qed

lemma gather_array_length:
  "gather_array col tg array count n copy = Some copy' \<Longrightarrow> length copy' = length copy"
proof (induction n arbitrary: copy')
  case 0
  then show ?case by simp
next
  case (Suc n)
  from Suc.prems obtain c t where c: "gather_array col tg array count n copy = Some c"
    and g: "gather_components col array (int n) (count * (t - 1)) (nat count) c = Some copy'"
    by (auto simp: bind_eq_Some_conv as_int_Some)
  show ?case using Suc.IH[OF c] gather_components_effect[OF g] by simp
qed

lemma gather_array_untouched:
  assumes "gather_array col tg array count n copy = Some copy'"
    and "\<forall>i<n. \<not> (count * (tg ! i - 1) \<le> int k \<and> int k < count * (tg ! i - 1) + count)"
  shows "copy' ! k = copy ! k"
  using assms
proof (induction n arbitrary: copy')
  case 0
  then show ?case by simp
next
  case (Suc n)
  from Suc.prems(1) obtain c t where c: "gather_array col tg array count n copy = Some c"
    and t: "rd tg (int n) = Some t"
    and g: "gather_components col array (int n) (count * (t - 1)) (nat count) c = Some copy'"
    by (auto simp: bind_eq_Some_conv as_int_Some)
  have ih: "c ! k = copy ! k" using Suc.IH[OF c] Suc.prems(2) by simp
  have tt: "t = tg ! n" using t by (simp add: rd_Some)
  have "\<not> (count * (t - 1) \<le> int k \<and> int k < count * (t - 1) + count)"
    using Suc.prems(2) tt by simp
  then have "\<not> (count * (t - 1) \<le> int k \<and> int k < count * (t - 1) + int (nat count))"
    by auto
  then have "copy' ! k = c ! k" using gather_components_effect[OF g] by blast
  then show ?case using ih by simp
qed

lemma gather_array_written:
  assumes "gather_array col tg array count n copy = Some copy'"
    and "0 < count" and "i < n"
    and "\<forall>i'. i < i' \<and> i' < n \<longrightarrow> tg ! i' \<noteq> tg ! i"
    and "j < nat count"
  shows "i < length tg \<and> i < length array \<and>
         0 \<le> col (int j) \<and> nat (col (int j)) < length (array ! i) \<and>
         0 \<le> count * (tg ! i - 1) + int j \<and>
         nat (count * (tg ! i - 1) + int j) < length copy \<and>
         copy' ! nat (count * (tg ! i - 1) + int j) = array ! i ! nat (col (int j))"
  using assms
proof (induction n arbitrary: copy')
  case 0
  then show ?case by simp
next
  case (Suc n)
  from Suc.prems(1) obtain c t where c: "gather_array col tg array count n copy = Some c"
    and t: "rd tg (int n) = Some t"
    and g: "gather_components col array (int n) (count * (t - 1)) (nat count) c = Some copy'"
    by (auto simp: bind_eq_Some_conv as_int_Some)
  have lc: "length c = length copy" using c by (rule gather_array_length)
  have tt: "t = tg ! n" "n < length tg" using t by (auto simp: rd_Some)
  note eff = gather_components_effect[OF g]
  show ?case
  proof (cases "i = n")
    case True
    have "0 \<le> int n \<and> nat (int n) < length array \<and>
                 0 \<le> col (int j) \<and> nat (col (int j)) < length (array ! nat (int n)) \<and>
                 0 \<le> count * (t - 1) + int j \<and> nat (count * (t - 1) + int j) < length c \<and>
                 copy' ! nat (count * (t - 1) + int j) = array ! nat (int n) ! nat (col (int j))"
      using eff Suc.prems(5) by blast
    then show ?thesis using True tt lc by simp
  next
    case False
    then have lt: "i < n" using Suc.prems(3) by simp
    have ih: "i < length tg \<and> i < length array \<and>
         0 \<le> col (int j) \<and> nat (col (int j)) < length (array ! i) \<and>
         0 \<le> count * (tg ! i - 1) + int j \<and>
         nat (count * (tg ! i - 1) + int j) < length copy \<and>
         c ! nat (count * (tg ! i - 1) + int j) = array ! i ! nat (col (int j))"
      using Suc.IH[OF c Suc.prems(2) lt _ Suc.prems(5)] Suc.prems(4) by simp
    let ?k = "nat (count * (tg ! i - 1) + int j)"
    have k: "int ?k = count * (tg ! i - 1) + int j" using ih by simp
    have ne: "tg ! n \<noteq> tg ! i" using Suc.prems(4) lt by simp
    have jc: "int j < count" using Suc.prems(5) by simp
    have "\<not> (count * (t - 1) \<le> int ?k \<and> int ?k < count * (t - 1) + int (nat count))"
    proof
      assume a: "count * (t - 1) \<le> int ?k \<and> int ?k < count * (t - 1) + int (nat count)"
      have "t - 1 = tg ! i - 1"
        by (rule block_unique[OF Suc.prems(2) _ jc]) (use a k Suc.prems(2) in auto)
      then show False using ne tt by simp
    qed
    then have "copy' ! ?k = c ! ?k" using eff by blast
    then show ?thesis using ih by simp
  qed
qed

lemma gather_vector_staging:
  assumes g: "gather_vector tg vector nl (replicate n 0) = Some copy" and col: "col 0 = 0"
  shows "staging_effect tg nl 1 col (emb 0) (map (\<lambda>x. [emb x]) vector) (map emb copy)"
proof -
  have len: "length copy = n" using gather_vector_length[OF g] by simp
  have z: "map emb copy ! k = emb 0"
    if k: "k < length (map emb copy)"
      and "\<forall>i<nl. \<not> (1 * (tg ! i - 1) \<le> int k \<and> int k < 1 * (tg ! i - 1) + 1)" for k
  proof -
    have "\<forall>i<nl. tg ! i - 1 \<noteq> int k" using that(2) by auto
    from gather_vector_untouched[OF g this] show ?thesis using k len by simp
  qed
  have w: "i < length tg \<and> i < length (map (\<lambda>x. [emb x]) vector) \<and>
        (\<forall>j<nat 1.
           0 \<le> 1 * (tg ! i - 1) + int j \<and>
           nat (1 * (tg ! i - 1) + int j) < length (map emb copy) \<and>
           0 \<le> col (int j) \<and> nat (col (int j)) < length (map (\<lambda>x. [emb x]) vector ! i) \<and>
           map emb copy ! nat (1 * (tg ! i - 1) + int j) =
             map (\<lambda>x. [emb x]) vector ! i ! nat (col (int j)))"
    if "i < nl" "\<forall>i'. i < i' \<and> i' < nl \<longrightarrow> tg ! i' \<noteq> tg ! i" for i
  proof -
    from gather_vector_written[OF g that]
    have a: "i < length tg" "i < length vector" "1 \<le> tg ! i"
      "nat (tg ! i - 1) < length (replicate n (0::'a))"
      "copy ! nat (tg ! i - 1) = vector ! i"
      by blast+
    then show ?thesis using len col by simp
  qed
  show ?thesis unfolding staging_effect_def using z w by blast
qed

lemma gather_array_staging:
  assumes g: "gather_array col tg array count nl (replicate n 0) = Some copy"
    and cnt: "0 < count"
  shows "staging_effect tg nl count col (emb 0) (map (map emb) array) (map emb copy)"
proof -
  have len: "length copy = n" using gather_array_length[OF g] by simp
  have z: "map emb copy ! k = emb 0"
    if k: "k < length (map emb copy)"
      and "\<forall>i<nl. \<not> (count * (tg ! i - 1) \<le> int k \<and> int k < count * (tg ! i - 1) + count)" for k
    using gather_array_untouched[OF g that(2)] k len by simp
  have w: "i < length tg \<and> i < length (map (map emb) array) \<and>
        (\<forall>j<nat count.
           0 \<le> count * (tg ! i - 1) + int j \<and>
           nat (count * (tg ! i - 1) + int j) < length (map emb copy) \<and>
           0 \<le> col (int j) \<and> nat (col (int j)) < length (map (map emb) array ! i) \<and>
           map emb copy ! nat (count * (tg ! i - 1) + int j) =
             map (map emb) array ! i ! nat (col (int j)))"
    if i: "i < nl" "\<forall>i'. i < i' \<and> i' < nl \<longrightarrow> tg ! i' \<noteq> tg ! i" for i
  proof -
    have c0: "0 < nat count" using cnt by simp
    from gather_array_written[OF g cnt i c0]
    have b: "i < length tg" "i < length array" by blast+
    have "0 \<le> count * (tg ! i - 1) + int j \<and>
           nat (count * (tg ! i - 1) + int j) < length (map emb copy) \<and>
           0 \<le> col (int j) \<and> nat (col (int j)) < length (map (map emb) array ! i) \<and>
           map emb copy ! nat (count * (tg ! i - 1) + int j) =
             map (map emb) array ! i ! nat (col (int j))" if j: "j < nat count" for j
    proof -
      from gather_array_written[OF g cnt i j]
      have a: "0 \<le> col (int j)" "nat (col (int j)) < length (array ! i)"
        "0 \<le> count * (tg ! i - 1) + int j"
        "nat (count * (tg ! i - 1) + int j) < length (replicate n (0::'a))"
        "copy ! nat (count * (tg ! i - 1) + int j) = array ! i ! nat (col (int j))"
        by blast+
      then show ?thesis using len b by simp
    qed
    moreover have "i < length (map (map emb) array)" using b by simp
    ultimately show ?thesis using b(1) by blast
  qed
  show ?thesis unfolding staging_effect_def using z w by blast
qed

lemma create_Some: "create n = Some c \<longleftrightarrow> 0 \<le> n \<and> c = replicate (nat n) 0"
  unfolding create_def by (cases "0 \<le> n") auto

lemma gather_stage_accepts:
  assumes "gather_stage lmp name type count = Some (Staged copy)"
  shows "tag_enable (atom lmp) \<noteq> 0 \<and> tag_consecutive (atom lmp) \<noteq> 0 \<and>
         sint (natoms (atom lmp)) \<le> MAXSMALLINT"
  using assms by (auto simp: gather_stage_def Let_def split: if_splits)

lemma gather_stage_Staged:
  assumes st: "gather_stage lmp name type count = Some (Staged copy)" and cnt: "0 < count"
  shows "\<exists>f. extract_atom (atom lmp) name = Some f \<and>
           lammps_get_natoms lmp = static_cast_int (natoms (atom lmp)) \<and>
           length (elems copy) = nat (count * sint (static_cast_int (natoms (atom lmp)))) \<and>
           (if type = 0 then copy = IntData (ints copy) else copy = DoubleData (doubles copy)) \<and>
           staging_effect (tag (atom lmp)) (nat (nlocal (atom lmp))) count (column type)
             (zero_of type) (rows f) (elems copy)"
proof -
  let ?N = "sint (static_cast_int (natoms (atom lmp)))"
  let ?tg = "tag (atom lmp)" and ?nl = "nat (nlocal (atom lmp))"
  have flag: "\<not> (tag_enable (atom lmp) = 0 \<or> tag_consecutive (atom lmp) = 0)"
    "\<not> MAXSMALLINT < sint (natoms (atom lmp))"
    using st by (auto simp: gather_stage_def Let_def split: if_splits)
  obtain f where f: "extract_atom (atom lmp) name = Some f"
    using st flag by (cases "extract_atom (atom lmp) name") (auto simp: gather_stage_def Let_def)
  have body: "(if type = 0 then
                (if count = 1 then
                   do {
                     vector \<leftarrow> int_vector f;
                     n \<leftarrow> as_int (count * ?N);
                     copy \<leftarrow> create n;
                     copy \<leftarrow> gather_vector ?tg vector ?nl copy;
                     Some (Staged (IntData copy))
                   }
                 else
                   do {
                     array \<leftarrow> int_array f;
                     n \<leftarrow> as_int (count * ?N);
                     copy \<leftarrow> create n;
                     copy \<leftarrow> gather_array (\<lambda>j. 0) ?tg array count ?nl copy;
                     Some (Staged (IntData copy))
                   })
              else
                (if count = 1 then
                   do {
                     vector \<leftarrow> double_vector f;
                     n \<leftarrow> as_int (count * ?N);
                     copy \<leftarrow> create n;
                     copy \<leftarrow> gather_vector ?tg vector ?nl copy;
                     Some (Staged (DoubleData copy))
                   }
                 else
                   do {
                     array \<leftarrow> double_array f;
                     n \<leftarrow> as_int (count * ?N);
                     copy \<leftarrow> create n;
                     copy \<leftarrow> gather_array (\<lambda>j. j) ?tg array count ?nl copy;
                     Some (Staged (DoubleData copy))
                   })) = Some (Staged copy)"
    using st flag f by (simp add: gather_stage_def Let_def)
  have "length (elems copy) = nat (count * ?N) \<and>
           (if type = 0 then copy = IntData (ints copy) else copy = DoubleData (doubles copy)) \<and>
           staging_effect ?tg ?nl count (column type) (zero_of type) (rows f) (elems copy)"
  proof (cases "type = 0")
    case int: True
    show ?thesis
    proof (cases "count = 1")
      case True
      from body int True obtain vector c where
        v: "f = IntVector vector" and c: "copy = IntData c"
        and g: "gather_vector ?tg vector ?nl (replicate (nat (count * ?N)) 0) = Some c"
        by (cases f) (auto simp: bind_eq_Some_conv create_Some as_int_Some)
      have "staging_effect ?tg ?nl 1 (column type) (I32 0) (map (\<lambda>x. [I32 x]) vector) (map I32 c)"
        using g by (rule gather_vector_staging) (simp add: column_def)
      then show ?thesis using gather_vector_length[OF g] v c int True
        by (simp add: zero_of_def)
    next
      case False
      from body int False obtain array c where
        v: "f = IntArray array" and c: "copy = IntData c"
        and g: "gather_array (\<lambda>j. 0) ?tg array count ?nl (replicate (nat (count * ?N)) 0) = Some c"
        by (cases f) (auto simp: bind_eq_Some_conv create_Some as_int_Some)
      have col: "column type = (\<lambda>j. 0)" using int by (auto simp: column_def)
      have "staging_effect ?tg ?nl count (\<lambda>j. 0) (I32 0) (map (map I32) array) (map I32 c)"
        using g cnt by (rule gather_array_staging)
      then show ?thesis using gather_array_length[OF g] v c int col
        by (simp add: zero_of_def)
    qed
  next
    case dbl: False
    show ?thesis
    proof (cases "count = 1")
      case True
      from body dbl True obtain vector c where
        v: "f = DoubleVector vector" and c: "copy = DoubleData c"
        and g: "gather_vector ?tg vector ?nl (replicate (nat (count * ?N)) 0) = Some c"
        by (cases f) (auto simp: bind_eq_Some_conv create_Some as_int_Some)
      have "staging_effect ?tg ?nl 1 (column type) (F64 0) (map (\<lambda>x. [F64 x]) vector) (map F64 c)"
        using g by (rule gather_vector_staging) (simp add: column_def)
      then show ?thesis using gather_vector_length[OF g] v c dbl True
        by (simp add: zero_of_def)
    next
      case False
      from body dbl False obtain array c where
        v: "f = DoubleArray array" and c: "copy = DoubleData c"
        and g: "gather_array (\<lambda>j. j) ?tg array count ?nl (replicate (nat (count * ?N)) 0) = Some c"
        by (cases f) (auto simp: bind_eq_Some_conv create_Some as_int_Some)
      have col: "column type = (\<lambda>j. j)" using dbl by (auto simp: column_def)
      have "staging_effect ?tg ?nl count (\<lambda>j. j) (F64 0) (map (map F64) array) (map F64 c)"
        using g cnt by (rule gather_array_staging)
      then show ?thesis using gather_array_length[OF g] v c dbl col
        by (simp add: zero_of_def)
    qed
  qed
  moreover have "lammps_get_natoms lmp = static_cast_int (natoms (atom lmp))"
    using flag(2) by (simp add: lammps_get_natoms_def)
  ultimately show ?thesis using f by blast
qed

lemma those_Some_map:
  assumes "those (map f xs) = Some ys" and "\<And>x y. f x = Some y \<Longrightarrow> x = g y"
  shows "xs = map g ys"
proof -
  from those_map_nth[OF assms(1)]
  have l: "length ys = length xs" and n: "\<forall>i<length xs. f (xs ! i) = Some (ys ! i)"
    by blast+
  show ?thesis
  proof (rule nth_equalityI)
    show "length xs = length (map g ys)" using l by simp
  next
    fix i assume "i < length xs"
    then show "xs ! i = map g ys ! i" using n l assms(2) by simp
  qed
qed

lemma staged_int_Some: "staged_int s = Some c \<Longrightarrow> s = Staged (IntData c)"
  by (cases s rule: staged_int.cases) auto

lemma staged_double_Some: "staged_double s = Some c \<Longrightarrow> s = Staged (DoubleData c)"
  by (cases s rule: staged_double.cases) auto

lemma int_data_Some: "int_data b = Some d \<Longrightarrow> b = IntData d"
  by (cases b) auto

lemma double_data_Some: "double_data b = Some d \<Longrightarrow> b = DoubleData d"
  by (cases b) auto

lemma those_Some_Staged: "those (map (\<lambda>c. Some (Staged c)) copies) = Some (map Staged copies)"
  by (rule those_map_Some) simp

text \<open>The collective step for one kind of data, with the buffers read through \<open>view\<close>.\<close>

lemma reduce_generic:
  fixes wrap :: "'a::plus list \<Rightarrow> buffer" and view :: "buffer \<Rightarrow> 'a list"
  assumes view: "\<And>d. view (wrap d) = d"
    and cs: "copies = map wrap cs" and ne: "cs \<noteq> []"
    and ds: "map snd world = map wrap datas"
    and al: "allreduce cs datas = Some out"
    and res: "res = map (\<lambda>d. ([], wrap d)) out"
    and r: "r < length world"
  shows "length res = length world \<and> fst (res ! r) = [] \<and>
         snd (res ! r) = wrap (view (snd (res ! r))) \<and>
         length (view (copies ! 0)) \<le> length (view (snd (res ! r))) \<and>
         (\<forall>c\<in>set copies. length (view c) = length (view (copies ! 0))) \<and>
         (\<forall>k<length (view (copies ! 0)).
            view (snd (res ! r)) ! k =
              foldl (+) (hd (map (\<lambda>c. view c ! k) copies)) (tl (map (\<lambda>c. view c ! k) copies)))"
proof -
  obtain c cs' where c: "cs = c # cs'" using ne by (cases cs) auto
  let ?n = "length c"
  let ?s = "foldl (map2 (+)) c cs'"
  have lw: "length datas = length world"
    using arg_cong[OF ds, of length] by simp
  from allreduce_Some[OF al[unfolded c]]
  have eq: "\<forall>x\<in>set cs. length x = ?n"
    and lo: "length out = length datas"
    and o: "\<forall>r<length datas. ?n \<le> length (datas ! r) \<and> out ! r = ?s @ drop ?n (datas ! r)"
    unfolding c by blast+
  have eq': "\<forall>x\<in>set cs'. length x = ?n" using eq c by simp
  have ls: "length ?s = ?n"
    by (rule foldl_map2_length) (use eq' in simp_all)
  have rr: "res ! r = ([], wrap (out ! r))" using res r lo lw by simp
  have v0: "view (copies ! 0) = c" using cs c view by simp
  have 1: "\<forall>x\<in>set copies. length (view x) = length (view (copies ! 0))"
    using eq v0 cs view by auto
  have 2: "view (snd (res ! r)) ! k =
             foldl (+) (hd (map (\<lambda>c. view c ! k) copies)) (tl (map (\<lambda>c. view c ! k) copies))"
    if "k < ?n" for k
  proof -
    have "view (snd (res ! r)) ! k = ?s ! k"
      using rr o r lw ls that view by (simp add: nth_append)
    also have "\<dots> = foldl (+) (c ! k) (map (\<lambda>x. x ! k) cs')"
      by (rule foldl_map2_nth[OF refl eq' that])
    also have "\<dots> = foldl (+) (hd (map (\<lambda>c. view c ! k) copies))
                          (tl (map (\<lambda>c. view c ! k) copies))"
      unfolding cs c by (simp add: o_def view)
    finally show ?thesis .
  qed
  have 3: "length (view (copies ! 0)) \<le> length (view (snd (res ! r)))"
    using rr o r lw ls v0 view by simp
  show ?thesis using rr res lo lw 1 2 3 v0 view by simp
qed

lemma gather_Returned:
  assumes ret: "lammps_gather_atoms world name type count = Returned res"
    and st: "map (\<lambda>(lmp, data). gather_stage lmp name type count) world =
               map (\<lambda>c. Some (Staged c)) copies"
    and r: "r < length world"
  shows "length res = length world \<and> fst (res ! r) = [] \<and>
         (if type = 0 then snd (res ! r) = IntData (ints (snd (res ! r))) \<and>
                 length (ints (copies ! 0)) \<le> length (ints (snd (res ! r))) \<and>
                 (\<forall>c\<in>set copies. length (ints c) = length (ints (copies ! 0))) \<and>
                 (\<forall>k<length (ints (copies ! 0)).
                    ints (snd (res ! r)) ! k =
                      foldl (+) (hd (map (\<lambda>c. ints c ! k) copies))
                        (tl (map (\<lambda>c. ints c ! k) copies))) \<and>
                 copies = map IntData (map ints copies)
          else snd (res ! r) = DoubleData (doubles (snd (res ! r))) \<and>
                 length (doubles (copies ! 0)) \<le> length (doubles (snd (res ! r))) \<and>
                 (\<forall>c\<in>set copies. length (doubles c) = length (doubles (copies ! 0))) \<and>
                 (\<forall>k<length (doubles (copies ! 0)).
                    doubles (snd (res ! r)) ! k =
                      foldl (+) (hd (map (\<lambda>c. doubles c ! k) copies))
                        (tl (map (\<lambda>c. doubles c ! k) copies))) \<and>
                 copies = map DoubleData (map doubles copies))"
proof -
  let ?stages = "map Staged copies"
  have th: "those (map (\<lambda>(lmp, data). gather_stage lmp name type count) world) = Some ?stages"
    unfolding st by (rule those_Some_Staged)
  have lc: "length copies = length world" using arg_cong[OF st, of length] by simp
  then have cne: "copies \<noteq> []" using r by auto
  have na: "\<not> list_all is_Abort ?stages" using cne by (cases copies) auto
  have ne: "\<not> list_ex is_Abort ?stages" by (induction copies) auto
  show ?thesis
  proof (cases "type = 0")
    case True
    have "(case do {
                    copies \<leftarrow> those (map staged_int ?stages);
                    datas \<leftarrow> those (map (int_data \<circ> snd) world);
                    allreduce copies datas
                  } of
               None \<Rightarrow> Undefined
             | Some datas \<Rightarrow> Returned (map (\<lambda>d. ([], IntData d)) datas)) = Returned res"
      using ret unfolding lammps_gather_atoms_def th using na ne True by simp
    then obtain cs datas out where
      cs: "those (map staged_int ?stages) = Some cs"
      and ds: "those (map (int_data \<circ> snd) world) = Some datas"
      and al: "allreduce cs datas = Some out"
      and res: "res = map (\<lambda>d. ([], IntData d)) out"
      by (auto simp: bind_eq_Some_conv split: option.splits)
    have c1: "?stages = map (\<lambda>c. Staged (IntData c)) cs"
      using cs by (rule those_Some_map) (rule staged_int_Some)
    have c2: "copies = map IntData cs"
    proof (rule nth_equalityI)
      show "length copies = length (map IntData cs)"
        using arg_cong[OF c1, of length] by simp
    next
      fix i assume i: "i < length copies"
      have "?stages ! i = map (\<lambda>c. Staged (IntData c)) cs ! i" using c1 by simp
      then show "copies ! i = map IntData cs ! i"
        using i arg_cong[OF c1, of length] by simp
    qed
    have d1: "map snd world = map IntData datas"
    proof -
      have "those (map int_data (map snd world)) = Some datas" using ds by simp
      then show ?thesis by (rule those_Some_map) (rule int_data_Some)
    qed
    have cn: "cs \<noteq> []" using c2 cne by auto
    have "length res = length world \<and> fst (res ! r) = [] \<and>
         snd (res ! r) = IntData (ints (snd (res ! r))) \<and>
         length (ints (copies ! 0)) \<le> length (ints (snd (res ! r))) \<and>
         (\<forall>c\<in>set copies. length (ints c) = length (ints (copies ! 0))) \<and>
         (\<forall>k<length (ints (copies ! 0)).
            ints (snd (res ! r)) ! k =
              foldl (+) (hd (map (\<lambda>c. ints c ! k) copies)) (tl (map (\<lambda>c. ints c ! k) copies)))"
      by (rule reduce_generic[OF _ c2 cn d1 al res r]) simp
    moreover have "copies = map IntData (map ints copies)" unfolding c2 by (simp add: o_def)
    ultimately show ?thesis using True by simp
  next
    case False
    have "(case do {
                    copies \<leftarrow> those (map staged_double ?stages);
                    datas \<leftarrow> those (map (double_data \<circ> snd) world);
                    allreduce copies datas
                  } of
               None \<Rightarrow> Undefined
             | Some datas \<Rightarrow> Returned (map (\<lambda>d. ([], DoubleData d)) datas)) = Returned res"
      using ret unfolding lammps_gather_atoms_def th using na ne False by simp
    then obtain cs datas out where
      cs: "those (map staged_double ?stages) = Some cs"
      and ds: "those (map (double_data \<circ> snd) world) = Some datas"
      and al: "allreduce cs datas = Some out"
      and res: "res = map (\<lambda>d. ([], DoubleData d)) out"
      by (auto simp: bind_eq_Some_conv split: option.splits)
    have c1: "?stages = map (\<lambda>c. Staged (DoubleData c)) cs"
      using cs by (rule those_Some_map) (rule staged_double_Some)
    have c2: "copies = map DoubleData cs"
    proof (rule nth_equalityI)
      show "length copies = length (map DoubleData cs)"
        using arg_cong[OF c1, of length] by simp
    next
      fix i assume i: "i < length copies"
      have "?stages ! i = map (\<lambda>c. Staged (DoubleData c)) cs ! i" using c1 by simp
      then show "copies ! i = map DoubleData cs ! i"
        using i arg_cong[OF c1, of length] by simp
    qed
    have d1: "map snd world = map DoubleData datas"
    proof -
      have "those (map double_data (map snd world)) = Some datas" using ds by simp
      then show ?thesis by (rule those_Some_map) (rule double_data_Some)
    qed
    have cn: "cs \<noteq> []" using c2 cne by auto
    have "length res = length world \<and> fst (res ! r) = [] \<and>
         snd (res ! r) = DoubleData (doubles (snd (res ! r))) \<and>
         length (doubles (copies ! 0)) \<le> length (doubles (snd (res ! r))) \<and>
         (\<forall>c\<in>set copies. length (doubles c) = length (doubles (copies ! 0))) \<and>
         (\<forall>k<length (doubles (copies ! 0)).
            doubles (snd (res ! r)) ! k =
              foldl (+) (hd (map (\<lambda>c. doubles c ! k) copies))
                (tl (map (\<lambda>c. doubles c ! k) copies)))"
      by (rule reduce_generic[OF _ c2 cn d1 al res r]) simp
    moreover have "copies = map DoubleData (map doubles copies)" unfolding c2 by (simp add: o_def)
    ultimately show ?thesis using False by simp
  qed
qed

lemma staging_effect_bounds:
  assumes "staging_effect tg nl count col z rs es"
  shows "nl \<le> length tg \<and> nl \<le> length rs"
proof (cases nl)
  case 0
  then show ?thesis by simp
next
  case (Suc m)
  have "m < nl" "\<forall>i'. m < i' \<and> i' < nl \<longrightarrow> tg ! i' \<noteq> tg ! m" using Suc by auto
  then have "m < length tg \<and> m < length rs"
    using assms unfolding staging_effect_def by blast
  then show ?thesis using Suc by simp
qed

lemma non_owner_zero:
  assumes se: "staging_effect tg nl count col z rs es" and cnt: "0 < count"
    and t: "t \<notin> set (take nl tg)" and j: "0 \<le> j" "j < count"
    and k: "0 \<le> count * (t - 1) + j" "nat (count * (t - 1) + j) < length es"
  shows "es ! nat (count * (t - 1) + j) = z"
proof -
  let ?k = "nat (count * (t - 1) + j)"
  have nl: "nl \<le> length tg" using staging_effect_bounds[OF se] by simp
  have "\<not> (count * (tg ! i - 1) \<le> int ?k \<and> int ?k < count * (tg ! i - 1) + count)"
    if i: "i < nl" for i
  proof
    assume a: "count * (tg ! i - 1) \<le> int ?k \<and> int ?k < count * (tg ! i - 1) + count"
    have "tg ! i - 1 = t - 1"
      by (rule block_unique[OF cnt j]) (use a k(1) in auto)
    moreover have "tg ! i \<in> set (take nl tg)"
      using i nl by (auto simp: in_set_conv_nth intro!: exI[of _ i])
    ultimately show False using t by simp
  qed
  then show ?thesis using se k(2) unfolding staging_effect_def by blast
qed

lemma owner_value:
  assumes se: "staging_effect tg nl count col z rs es" and cnt: "0 < count"
    and i: "i < nl" and d: "distinct (take nl tg)" and j: "0 \<le> j" "j < count"
  shows "i < length rs \<and> 0 \<le> count * (tg ! i - 1) + j \<and>
         nat (count * (tg ! i - 1) + j) < length es \<and>
         0 \<le> col j \<and> nat (col j) < length (rs ! i) \<and>
         es ! nat (count * (tg ! i - 1) + j) = rs ! i ! nat (col j)"
proof -
  have nl: "nl \<le> length tg" using staging_effect_bounds[OF se] by simp
  have later: "\<forall>i'. i < i' \<and> i' < nl \<longrightarrow> tg ! i' \<noteq> tg ! i"
  proof (intro allI impI)
    fix i' assume a: "i < i' \<and> i' < nl"
    have "i' < length (take nl tg)" "i < length (take nl tg)" "i' \<noteq> i"
      using a i nl by auto
    then have "take nl tg ! i' \<noteq> take nl tg ! i"
      using d nth_eq_iff_index_eq by blast
    then show "tg ! i' \<noteq> tg ! i" using a i by simp
  qed
  have jn: "nat j < nat count" using j by simp
  have "i < length tg \<and> i < length rs \<and>
        (\<forall>j<nat count.
           0 \<le> count * (tg ! i - 1) + int j \<and>
           nat (count * (tg ! i - 1) + int j) < length es \<and>
           0 \<le> col (int j) \<and> nat (col (int j)) < length (rs ! i) \<and>
           es ! nat (count * (tg ! i - 1) + int j) = rs ! i ! nat (col (int j)))"
    using se i later unfolding staging_effect_def by blast
  then have "i < length rs \<and> 0 \<le> count * (tg ! i - 1) + int (nat j) \<and>
           nat (count * (tg ! i - 1) + int (nat j)) < length es \<and>
           0 \<le> col (int (nat j)) \<and> nat (col (int (nat j))) < length (rs ! i) \<and>
           es ! nat (count * (tg ! i - 1) + int (nat j)) = rs ! i ! nat (col (int (nat j)))"
    using jn by blast
  then show ?thesis using j(1) by simp
qed

lemma offset_in_range:
  fixes count :: int
  assumes "0 < count" "1 \<le> t" "t \<le> N" "0 \<le> j" "j < count"
  shows "0 \<le> count * (t - 1) + j \<and> nat (count * (t - 1) + j) < nat (count * N)"
proof -
  have a: "0 \<le> count * (t - 1)" using assms by simp
  have "count * (t - 1) + j < count * (t - 1) + count" using assms by simp
  also have "\<dots> = count * t" by (simp add: algebra_simps)
  also have "\<dots> \<le> count * N" using assms by (simp add: mult_left_mono)
  finally show ?thesis using a assms(4) by simp
qed

lemma stage_of_rank:
  assumes st: "map (\<lambda>(lmp, data). gather_stage lmp name type count) world =
               map (\<lambda>c. Some (Staged c)) copies"
    and q: "q < length world"
  shows "gather_stage (fst (world ! q)) name type count = Some (Staged (copies ! q))"
proof -
  have lc: "length copies = length world" using arg_cong[OF st, of length] by simp
  have "map (\<lambda>(lmp, data). gather_stage lmp name type count) world ! q =
        map (\<lambda>c. Some (Staged c)) copies ! q"
    using st by simp
  then show ?thesis using q lc by (simp add: case_prod_beta)
qed

lemma elems_IntData: "b = IntData (ints b) \<Longrightarrow> elems b = map I32 (ints b)"
  by (cases b) auto

lemma elems_DoubleData: "b = DoubleData (doubles b) \<Longrightarrow> elems b = map F64 (doubles b)"
  by (cases b) auto

lemma ints_DoubleData: "b = DoubleData (doubles b) \<Longrightarrow> ints b = []"
  by (cases b) auto

lemma doubles_IntData: "b = IntData (ints b) \<Longrightarrow> doubles b = []"
  by (cases b) auto

lemma nth_map_wrap:
  assumes "copies = map wrap (map view copies)" and "q < length copies"
  shows "copies ! q = wrap (view (copies ! q))"
proof -
  have "copies ! q = map wrap (map view copies) ! q" using assms(1) by simp
  then show ?thesis using assms(2) by simp
qed

text \<open>
  Where one rank at most owns the tag, and its contribution is an integer or an ordinary
  double, the sum is that contribution.
\<close>

lemma single_owner:
  assumes ret: "lammps_gather_atoms world name type count = Returned res"
    and st: "map (\<lambda>(lmp, data). gather_stage lmp name type count) world =
               map (\<lambda>c. Some (Staged c)) copies"
    and cnt: "0 < count" and r: "r < length world" and ow: "o' < length world"
    and t: "1 \<le> t" "t \<le> sint (lammps_get_natoms (fst (world ! r)))"
    and j: "0 \<le> j" "j < count"
    and others: "\<forall>q<length world. q \<noteq> o' \<longrightarrow> t \<notin> set (owned_tags (fst (world ! q)))"
    and ord: "ordinary_number (elems (copies ! o') ! nat (count * (t - 1) + j))"
  shows "nat (count * (t - 1) + j) < length (elems (copies ! o')) \<and>
         nat (count * (t - 1) + j) < length (elems (snd (res ! r))) \<and>
         elems (snd (res ! r)) ! nat (count * (t - 1) + j) =
           elems (copies ! o') ! nat (count * (t - 1) + j)"
proof -
  let ?k = "nat (count * (t - 1) + j)"
  have lc: "length copies = length world" using arg_cong[OF st, of length] by simp
  note G = gather_Returned[OF ret st r]
  from gather_stage_Staged[OF stage_of_rank[OF st r] cnt]
  have lr: "length (elems (copies ! r)) = nat (count * sint (lammps_get_natoms (fst (world ! r))))"
    by auto
  have k0: "0 \<le> count * (t - 1) + j" and kr: "?k < length (elems (copies ! r))"
    using offset_in_range[OF cnt t j] lr by simp_all
  have zero: "elems (copies ! q) ! ?k = zero_of type"
    if q: "q < length world" "q \<noteq> o'" and kq: "?k < length (elems (copies ! q))" for q
  proof -
    from gather_stage_Staged[OF stage_of_rank[OF st q(1)] cnt]
    obtain f where se: "staging_effect (tag (atom (fst (world ! q))))
        (nat (nlocal (atom (fst (world ! q))))) count (column type) (zero_of type) (rows f)
        (elems (copies ! q))"
      by blast
    have "t \<notin> set (take (nat (nlocal (atom (fst (world ! q))))) (tag (atom (fst (world ! q)))))"
      using others q unfolding owned_tags_def by blast
    from non_owner_zero[OF se cnt this j k0 kq] show ?thesis .
  qed
  show ?thesis
  proof (cases "type = 0")
    case True
    from G True have kind: "snd (res ! r) = IntData (ints (snd (res ! r)))"
      and le: "length (ints (copies ! 0)) \<le> length (ints (snd (res ! r)))"
      and eq: "\<forall>c\<in>set copies. length (ints c) = length (ints (copies ! 0))"
      and sum: "\<forall>k<length (ints (copies ! 0)).
                    ints (snd (res ! r)) ! k =
                      foldl (+) (hd (map (\<lambda>c. ints c ! k) copies))
                        (tl (map (\<lambda>c. ints c ! k) copies))"
      and wr: "copies = map IntData (map ints copies)"
      by simp_all
    have ck: "copies ! q = IntData (ints (copies ! q))" if "q < length world" for q
      using nth_map_wrap[OF wr] that lc by simp
    have el: "elems (copies ! q) = map I32 (ints (copies ! q))" if "q < length world" for q
      using elems_IntData[OF ck[OF that]] .
    have ln: "length (ints (copies ! q)) = length (ints (copies ! 0))" if "q < length world" for q
      using eq that lc by simp
    have kn: "?k < length (ints (copies ! 0))" using kr el[OF r] ln[OF r] by simp
    have z: "\<forall>q<length copies. q \<noteq> o' \<longrightarrow> ints (copies ! q) ! ?k = 0"
    proof (intro allI impI)
      fix q assume q: "q < length copies" "q \<noteq> o'"
      then have qw: "q < length world" using lc by simp
      have kq: "?k < length (ints (copies ! q))" using kn ln[OF qw] by simp
      have "elems (copies ! q) ! ?k = I32 0"
        using zero[OF qw q(2)] kq el[OF qw] True by (simp add: zero_of_def)
      then show "ints (copies ! q) ! ?k = 0" using kq el[OF qw] by simp
    qed
    let ?xs = "map (\<lambda>c. ints c ! ?k) copies"
    have "foldl (+) (hd ?xs) (tl ?xs) = ?xs ! o'"
      by (rule reduce_single[where z = 0]) (use ow lc z in simp_all)
    then have s: "ints (snd (res ! r)) ! ?k = ints (copies ! o') ! ?k"
      using sum kn ow lc by simp
    have ko: "?k < length (ints (copies ! o'))" using kn ln[OF ow] by simp
    have kres: "?k < length (ints (snd (res ! r)))" using kn le by simp
    have "elems (snd (res ! r)) ! ?k = I32 (ints (snd (res ! r)) ! ?k)"
      using elems_IntData[OF kind] kres by simp
    moreover have "elems (copies ! o') ! ?k = I32 (ints (copies ! o') ! ?k)"
      using el[OF ow] ko by simp
    moreover have "?k < length (elems (copies ! o'))" using el[OF ow] ko by simp
    moreover have "?k < length (elems (snd (res ! r)))"
      using elems_IntData[OF kind] kres by simp
    ultimately show ?thesis using s by simp
  next
    case False
    from G False have kind: "snd (res ! r) = DoubleData (doubles (snd (res ! r)))"
      and le: "length (doubles (copies ! 0)) \<le> length (doubles (snd (res ! r)))"
      and eq: "\<forall>c\<in>set copies. length (doubles c) = length (doubles (copies ! 0))"
      and sum: "\<forall>k<length (doubles (copies ! 0)).
                    doubles (snd (res ! r)) ! k =
                      foldl (+) (hd (map (\<lambda>c. doubles c ! k) copies))
                        (tl (map (\<lambda>c. doubles c ! k) copies))"
      and wr: "copies = map DoubleData (map doubles copies)"
      by simp_all
    have ck: "copies ! q = DoubleData (doubles (copies ! q))" if "q < length world" for q
      using nth_map_wrap[OF wr] that lc by simp
    have el: "elems (copies ! q) = map F64 (doubles (copies ! q))" if "q < length world" for q
      using elems_DoubleData[OF ck[OF that]] .
    have ln: "length (doubles (copies ! q)) = length (doubles (copies ! 0))"
      if "q < length world" for q
      using eq that lc by simp
    have kn: "?k < length (doubles (copies ! 0))" using kr el[OF r] ln[OF r] by simp
    have z: "\<forall>q<length copies. q \<noteq> o' \<longrightarrow> doubles (copies ! q) ! ?k = 0"
    proof (intro allI impI)
      fix q assume q: "q < length copies" "q \<noteq> o'"
      then have qw: "q < length world" using lc by simp
      have kq: "?k < length (doubles (copies ! q))" using kn ln[OF qw] by simp
      have "elems (copies ! q) ! ?k = F64 0"
        using zero[OF qw q(2)] kq el[OF qw] False by (simp add: zero_of_def)
      then show "doubles (copies ! q) ! ?k = 0" using kq el[OF qw] by simp
    qed
    have ko: "?k < length (doubles (copies ! o'))" using kn ln[OF ow] by simp
    have "elems (copies ! o') ! ?k = F64 (doubles (copies ! o') ! ?k)"
      using el[OF ow] ko by simp
    then have od: "ordinary (doubles (copies ! o') ! ?k)" using ord by simp
    let ?xs = "map (\<lambda>c. doubles c ! ?k) copies"
    have "foldl (+) (hd ?xs) (tl ?xs) = ?xs ! o'"
      by (rule reduce_single[where z = 0])
         (use ow lc z plus_double_zero[OF od] plus_double_zero[OF ordinary_zero] in simp_all)
    then have s: "doubles (snd (res ! r)) ! ?k = doubles (copies ! o') ! ?k"
      using sum kn ow lc by simp
    have kres: "?k < length (doubles (snd (res ! r)))" using kn le by simp
    have "elems (snd (res ! r)) ! ?k = F64 (doubles (snd (res ! r)) ! ?k)"
      using elems_DoubleData[OF kind] kres by simp
    moreover have "elems (copies ! o') ! ?k = F64 (doubles (copies ! o') ! ?k)"
      using el[OF ow] ko by simp
    moreover have "?k < length (elems (copies ! o'))" using el[OF ow] ko by simp
    moreover have "?k < length (elems (snd (res ! r)))"
      using elems_DoubleData[OF kind] kres by simp
    ultimately show ?thesis using s by simp
  qed
qed

lemma distinct_concat_nth:
  assumes "distinct (concat xss)" and "q < length xss" and "p < length xss" and "q \<noteq> p"
  shows "set (xss ! q) \<inter> set (xss ! p) = {}"
  using assms
proof (induction xss arbitrary: q p)
  case Nil
  then show ?case by simp
next
  case (Cons xs xss)
  have d: "distinct (concat xss)" and dj: "set xs \<inter> set (concat xss) = {}"
    using Cons.prems(1) by auto
  have sub: "set (xss ! i) \<subseteq> set (concat xss)" if "i < length xss" for i
  proof -
    have "xss ! i \<in> set xss" using that by simp
    then show ?thesis by auto
  qed
  show ?case
  proof (cases q)
    case 0
    then obtain p' where p: "p = Suc p'" using Cons.prems(4) by (cases p) auto
    then have "p' < length xss" using Cons.prems(3) by simp
    then show ?thesis using 0 p dj sub by fastforce
  next
    case (Suc q')
    then have q': "q' < length xss" using Cons.prems(2) by simp
    show ?thesis
    proof (cases p)
      case 0
      then show ?thesis using Suc dj sub[OF q'] by fastforce
    next
      case (Suc p')
      then have "p' < length xss" using Cons.prems(3) by simp
      then show ?thesis using Cons.IH[OF d q' _ ] \<open>q = Suc q'\<close> Suc Cons.prems(4) by simp
    qed
  qed
qed

lemma distinct_concat_each:
  assumes "distinct (concat xss)" and "q < length xss"
  shows "distinct (xss ! q)"
  using assms
proof (induction xss arbitrary: q)
  case Nil
  then show ?case by simp
next
  case (Cons xs xss)
  then show ?case by (cases q) auto
qed

lemma map_fst_zip_le: "length xs \<le> length ys \<Longrightarrow> map fst (zip xs ys) = xs"
proof (induction xs arbitrary: ys)
  case Nil
  then show ?case by simp
next
  case (Cons x xs)
  then show ?case by (cases ys) auto
qed

lemma owned_of_staged:
  assumes st: "gather_stage lmp name type count = Some (Staged copy)" and cnt: "0 < count"
  shows "\<exists>f. extract_atom (atom lmp) name = Some f \<and>
           owned lmp name = zip (owned_tags lmp) (rows f) \<and>
           map fst (owned lmp name) = owned_tags lmp \<and>
           length (owned_tags lmp) = nat (nlocal (atom lmp)) \<and>
           staging_effect (tag (atom lmp)) (nat (nlocal (atom lmp))) count (column type)
             (zero_of type) (rows f) (elems copy)"
proof -
  from gather_stage_Staged[OF st cnt]
  obtain f where f: "extract_atom (atom lmp) name = Some f"
    and se: "staging_effect (tag (atom lmp)) (nat (nlocal (atom lmp))) count (column type)
             (zero_of type) (rows f) (elems copy)"
    by blast
  have b: "nat (nlocal (atom lmp)) \<le> length (tag (atom lmp))"
    "nat (nlocal (atom lmp)) \<le> length (rows f)"
    using staging_effect_bounds[OF se] by simp_all
  have l: "length (owned_tags lmp) = nat (nlocal (atom lmp))"
    using b(1) by (simp add: owned_tags_def)
  have o: "owned lmp name = zip (owned_tags lmp) (rows f)"
    using f by (simp add: owned_def)
  have "map fst (owned lmp name) = owned_tags lmp"
    unfolding o using l b(2) by (intro map_fst_zip_le) simp
  then show ?thesis using f o l se by blast
qed

lemma div_mod_block:
  fixes count :: int
  assumes "0 < count" and "k < nat (count * N)"
  shows "count * (int k div count + 1 - 1) + int k mod count = int k \<and>
         0 \<le> int k mod count \<and> int k mod count < count \<and>
         1 \<le> int k div count + 1 \<and> int k div count + 1 \<le> N"
proof -
  have k: "int k < count * N" using assms(2) by simp
  have m: "0 \<le> int k mod count" "int k mod count < count" using assms(1) by simp_all
  have e: "count * (int k div count) + int k mod count = int k" by simp
  have d0: "0 \<le> int k div count" using assms(1) by (simp add: pos_imp_zdiv_nonneg_iff)
  have "int k div count < N"
  proof (rule ccontr)
    assume "\<not> int k div count < N"
    then have "count * N \<le> count * (int k div count)"
      using assms(1) by (simp add: mult_left_mono)
    also have "\<dots> \<le> int k" using e m(1) by linarith
    finally show False using k by simp
  qed
  then show ?thesis using e m d0 by simp
qed

lemma gather_layout:
  assumes ret: "lammps_gather_atoms world name type count = Returned res"
    and st: "map (\<lambda>(lmp, data). gather_stage lmp name type count) world =
               map (\<lambda>c. Some (Staged c)) copies"
    and cnt: "0 < count" and r: "r < length world"
    and d: "distinct (map fst (atoms_of world name))"
    and ord: "\<forall>(t, row)\<in>set (atoms_of world name). list_all ordinary_number row"
    and k: "k < nat (count * sint (lammps_get_natoms (fst (world ! r))))"
  shows "k < length (elems (snd (res ! r))) \<and>
         (\<forall>row. (int k div count + 1, row) \<in> set (atoms_of world name) \<longrightarrow>
            nat (column type (int k mod count)) < length row \<and>
            elems (snd (res ! r)) ! k = row ! nat (column type (int k mod count))) \<and>
         (int k div count + 1 \<notin> fst ` set (atoms_of world name) \<longrightarrow>
            elems (snd (res ! r)) ! k = zero_of type)"
proof -
  let ?t = "int k div count + 1" and ?j = "int k mod count"
  let ?xss = "map (\<lambda>x. map fst (owned (fst x) name)) world"
  from div_mod_block[OF cnt k]
  have kk: "count * (?t - 1) + ?j = int k" and j: "0 \<le> ?j" "?j < count"
    and t: "1 \<le> ?t" "?t \<le> sint (lammps_get_natoms (fst (world ! r)))"
    by blast+
  have nk: "nat (count * (?t - 1) + ?j) = k" using kk by simp
  have mf: "map fst (atoms_of world name) = concat ?xss"
    by (simp add: atoms_of_def map_concat o_def case_prod_beta)
  have dx: "distinct (concat ?xss)" using d mf by simp
  have stq: "gather_stage (fst (world ! q)) name type count = Some (Staged (copies ! q))"
    if "q < length world" for q using stage_of_rank[OF st that] .
  have xq: "?xss ! q = owned_tags (fst (world ! q))" if q: "q < length world" for q
  proof -
    from owned_of_staged[OF stq[OF q] cnt]
    have "map fst (owned (fst (world ! q)) name) = owned_tags (fst (world ! q))" by blast
    then show ?thesis using q by (simp add: case_prod_beta)
  qed
  have a: "nat (column type ?j) < length row \<and>
           elems (snd (res ! r)) ! k = row ! nat (column type ?j)"
    if row: "(?t, row) \<in> set (atoms_of world name)" for row
  proof -
    from row obtain w where w: "w \<in> set world" and ro: "(?t, row) \<in> set (owned (fst w) name)"
      by (auto simp: atoms_of_def case_prod_beta)
    then obtain p where p: "p < length world" and wp: "world ! p = w"
      by (auto simp: in_set_conv_nth)
    from owned_of_staged[OF stq[OF p] cnt]
    obtain f where o: "owned (fst (world ! p)) name = zip (owned_tags (fst (world ! p))) (rows f)"
      and lo: "length (owned_tags (fst (world ! p))) = nat (nlocal (atom (fst (world ! p))))"
      and se: "staging_effect (tag (atom (fst (world ! p)))) (nat (nlocal (atom (fst (world ! p)))))
                 count (column type) (zero_of type) (rows f) (elems (copies ! p))"
      by blast
    from ro obtain i where i: "i < length (owned_tags (fst (world ! p)))" "i < length (rows f)"
      and ti: "owned_tags (fst (world ! p)) ! i = ?t" and ri: "rows f ! i = row"
      unfolding wp[symmetric] o by (auto simp: in_set_zip)
    have inl: "i < nat (nlocal (atom (fst (world ! p))))" using i(1) lo by simp
    have tgi: "tag (atom (fst (world ! p))) ! i = ?t"
      using ti inl by (simp add: owned_tags_def)
    have tin: "?t \<in> set (?xss ! p)" using xq[OF p] ti i(1) by (metis nth_mem)
    have others: "\<forall>q<length world. q \<noteq> p \<longrightarrow> ?t \<notin> set (owned_tags (fst (world ! q)))"
    proof (intro allI impI)
      fix q assume q: "q < length world" "q \<noteq> p"
      have "set (?xss ! q) \<inter> set (?xss ! p) = {}"
        using dx q p by (intro distinct_concat_nth) simp_all
      then show "?t \<notin> set (owned_tags (fst (world ! q)))"
        using tin xq[OF q(1)] by auto
    qed
    have dp: "distinct (take (nat (nlocal (atom (fst (world ! p))))) (tag (atom (fst (world ! p)))))"
    proof -
      have "distinct (?xss ! p)" using dx p by (intro distinct_concat_each) simp_all
      then show ?thesis using xq[OF p] by (simp add: owned_tags_def)
    qed
    have cl: "nat (column type ?j) < length row"
      using owner_value[OF se cnt inl dp j] ri by simp
    have ev: "elems (copies ! p) ! k = row ! nat (column type ?j)"
      using owner_value[OF se cnt inl dp j] tgi nk ri by simp
    have "list_all ordinary_number row" using ord row by blast
    then have "ordinary_number (row ! nat (column type ?j))"
      using cl by (simp add: list_all_length)
    then have "ordinary_number (elems (copies ! p) ! nat (count * (?t - 1) + ?j))"
      using ev nk by simp
    from single_owner[OF ret st cnt r p t j others this]
    have "elems (snd (res ! r)) ! k = elems (copies ! p) ! k" using nk by simp
    then have "elems (snd (res ! r)) ! k = row ! nat (column type ?j)"
      using ev by simp
    then show ?thesis using cl by simp
  qed
  have b: "elems (snd (res ! r)) ! k = zero_of type"
    if no: "?t \<notin> fst ` set (atoms_of world name)"
  proof -
    have nin: "?t \<notin> set (owned_tags (fst (world ! q)))" if q: "q < length world" for q
    proof -
      have "?xss ! q \<in> set ?xss" using q by simp
      then have "set (?xss ! q) \<subseteq> set (concat ?xss)" by auto
      moreover have "set (concat ?xss) = fst ` set (atoms_of world name)"
        using mf by (metis set_map)
      ultimately show ?thesis using no xq[OF q] by auto
    qed
    have others: "\<forall>q<length world. q \<noteq> r \<longrightarrow> ?t \<notin> set (owned_tags (fst (world ! q)))"
      using nin by blast
    from gather_stage_Staged[OF stq[OF r] cnt]
    have "length (elems (copies ! r)) =
                nat (count * sint (lammps_get_natoms (fst (world ! r))))"
      by auto
    then have kl: "k < length (elems (copies ! r))" using k by simp
    from owned_of_staged[OF stq[OF r] cnt]
    obtain f where se: "staging_effect (tag (atom (fst (world ! r)))) (nat (nlocal (atom (fst (world ! r)))))
                 count (column type) (zero_of type) (rows f) (elems (copies ! r))"
      by blast
    have "?t \<notin> set (take (nat (nlocal (atom (fst (world ! r))))) (tag (atom (fst (world ! r)))))"
      using nin[OF r] by (simp add: owned_tags_def)
    from non_owner_zero[OF se cnt this j] kl nk kk
    have z: "elems (copies ! r) ! k = zero_of type" by simp
    then have "ordinary_number (elems (copies ! r) ! nat (count * (?t - 1) + ?j))"
      using nk by (simp add: ordinary_number_zero_of)
    from single_owner[OF ret st cnt r r t j others this]
    have "elems (snd (res ! r)) ! k = elems (copies ! r) ! k"
      using nk by simp
    then show ?thesis using z by simp
  qed
  have c: "k < length (elems (snd (res ! r)))"
  proof -
    note G = gather_Returned[OF ret st r]
    from gather_stage_Staged[OF stq[OF r] cnt]
    have lr: "length (elems (copies ! r)) =
                nat (count * sint (lammps_get_natoms (fst (world ! r))))"
      by auto
    have lc: "length copies = length world" using arg_cong[OF st, of length] by simp
    have rc: "copies ! r \<in> set copies" using r lc by simp
    show ?thesis
    proof (cases "type = 0")
      case True
      then have kind: "snd (res ! r) = IntData (ints (snd (res ! r)))"
        and le: "length (ints (copies ! 0)) \<le> length (ints (snd (res ! r)))"
        and eq: "\<forall>c\<in>set copies. length (ints c) = length (ints (copies ! 0))"
        and wr: "copies = map IntData (map ints copies)"
        using G by simp_all
      have "copies ! r = IntData (ints (copies ! r))" using nth_map_wrap[OF wr] r lc by simp
      then have "length (elems (copies ! r)) = length (ints (copies ! r))"
        using elems_IntData by (metis length_map)
      then show ?thesis using lr k eq rc le elems_IntData[OF kind] by simp
    next
      case False
      then have kind: "snd (res ! r) = DoubleData (doubles (snd (res ! r)))"
        and le: "length (doubles (copies ! 0)) \<le> length (doubles (snd (res ! r)))"
        and eq: "\<forall>c\<in>set copies. length (doubles c) = length (doubles (copies ! 0))"
        and wr: "copies = map DoubleData (map doubles copies)"
        using G by simp_all
      have "copies ! r = DoubleData (doubles (copies ! r))"
        using nth_map_wrap[OF wr] r lc by simp
      then have "length (elems (copies ! r)) = length (doubles (copies ! r))"
        using elems_DoubleData by (metis length_map)
      then show ?thesis using lr k eq rc le elems_DoubleData[OF kind] by simp
    qed
  qed
  show ?thesis using a b c by blast
qed

subsection \<open>When gather returns\<close>

lemma gather_vector_defined:
  assumes "n \<le> length tg" and "n \<le> length vector"
    and "\<forall>i<n. 1 \<le> tg ! i \<and> tg ! i \<le> int (length copy)"
    and "int (length copy) \<le> INT_MAX"
  shows "\<exists>copy'. gather_vector tg vector n copy = Some copy'"
  using assms
proof (induction n)
  case 0
  then show ?case by simp
next
  case (Suc n)
  then obtain c where c: "gather_vector tg vector n copy = Some c" by auto
  have lc: "length c = length copy" using c by (rule gather_vector_length)
  have t: "1 \<le> tg ! n" "tg ! n \<le> int (length copy)" using Suc.prems(3) by auto
  have 1: "rd tg (int n) = Some (tg ! n)" using Suc.prems(1) by (simp add: rd_def)
  have 2: "as_int (tg ! n - 1) = Some (tg ! n - 1)"
    using t Suc.prems(4) by (simp add: as_int_def INT_MIN_def)
  have 3: "rd vector (int n) = Some (vector ! n)" using Suc.prems(2) by (simp add: rd_def)
  have 4: "wr c (tg ! n - 1) v = Some (c[nat (tg ! n - 1) := v])" for v
    using t lc by (simp add: wr_def)
  show ?case by (simp add: c 1 2 3 4)
qed

lemma gather_components_defined:
  assumes "0 \<le> i" and "nat i < length array"
    and "\<forall>j<c. 0 \<le> col (int j) \<and> nat (col (int j)) < length (array ! nat i)"
    and "0 \<le> offset" and "nat offset + c \<le> length copy" and "offset + int c \<le> INT_MAX"
  shows "\<exists>copy'. gather_components col array i offset c copy = Some copy'"
  using assms
proof (induction c)
  case 0
  then show ?case by simp
next
  case (Suc c)
  then obtain cp where cp: "gather_components col array i offset c copy = Some cp" by auto
  have lc: "length cp = length copy" using gather_components_effect[OF cp] by simp
  have cl: "0 \<le> col (int c)" "nat (col (int c)) < length (array ! nat i)"
    using Suc.prems(3) by auto
  have 1: "rd array i = Some (array ! nat i)" using Suc.prems(1,2) by (simp add: rd_def)
  have 2: "rd (array ! nat i) (col (int c)) = Some (array ! nat i ! nat (col (int c)))"
    using cl by (simp add: rd_def)
  have 3: "wr cp (offset + int c) v = Some (cp[nat (offset + int c) := v])" for v
    using Suc.prems(4,5) lc by (simp add: wr_def)
  have 4: "as_int (offset + int c + 1) = Some (offset + int c + 1)"
    using Suc.prems(4,6) by (simp add: as_int_def INT_MIN_def)
  show ?case by (simp add: cp 1 2 3 4)
qed

lemma gather_array_defined:
  assumes cnt: "0 < count" and "n \<le> length tg" and "n \<le> length array"
    and "\<forall>i<n. 1 \<le> tg ! i \<and> count * tg ! i \<le> int (length copy)"
    and "int (length copy) \<le> INT_MAX"
    and "\<forall>i<n. \<forall>j<nat count. 0 \<le> col (int j) \<and> nat (col (int j)) < length (array ! i)"
  shows "\<exists>copy'. gather_array col tg array count n copy = Some copy'"
  using assms
proof (induction n)
  case 0
  then show ?case by simp
next
  case (Suc n)
  then obtain c where c: "gather_array col tg array count n copy = Some c" by auto
  have lc: "length c = length copy" using c by (rule gather_array_length)
  let ?t = "tg ! n"
  have t: "1 \<le> ?t" "count * ?t \<le> int (length copy)" using Suc.prems(4) by auto
  have e: "count * ?t = count * (?t - 1) + count" by (simp add: algebra_simps)
  have o0: "0 \<le> count * (?t - 1)" using cnt t(1) by simp
  have ot: "count * (?t - 1) + count \<le> int (length copy)" using t(2) unfolding e .
  have tc: "?t - 1 \<le> count * (?t - 1)"
    using cnt t(1) by (simp add: mult_le_cancel_right1)
  have 1: "rd tg (int n) = Some ?t" using Suc.prems(2) by (simp add: rd_def)
  have 2: "as_int (?t - 1) = Some (?t - 1)"
    unfolding as_int_def INT_MIN_def using t(1) tc ot cnt Suc.prems(5) by simp
  have 3: "as_int (count * (?t - 1)) = Some (count * (?t - 1))"
    unfolding as_int_def INT_MIN_def using o0 ot cnt Suc.prems(5) by simp
  have "\<exists>copy'. gather_components col array (int n) (count * (?t - 1)) (nat count) c = Some copy'"
  proof (rule gather_components_defined)
    show "0 \<le> int n" by simp
    show "nat (int n) < length array" using Suc.prems(3) by simp
    have "n < Suc n" by simp
    then have "\<forall>j<nat count. 0 \<le> col (int j) \<and> nat (col (int j)) < length (array ! n)"
      using Suc.prems(6) by blast
    then show "\<forall>j<nat count. 0 \<le> col (int j) \<and> nat (col (int j)) < length (array ! nat (int n))"
      by simp
    show "0 \<le> count * (?t - 1)" using o0 .
    show "nat (count * (?t - 1)) + nat count \<le> length c"
      using ot o0 cnt lc by linarith
    show "count * (?t - 1) + int (nat count) \<le> INT_MAX"
      using ot cnt Suc.prems(5) by simp
  qed
  then show ?case by (simp add: c 1 2 3)
qed

lemma gather_stage_defined:
  assumes acc: "tag_enable (atom lmp) \<noteq> 0" "tag_consecutive (atom lmp) \<noteq> 0"
      "sint (natoms (atom lmp)) \<le> MAXSMALLINT"
    and f: "extract_atom (atom lmp) name = Some f"
    and fits: "fits type count f data"
    and cnt: "0 < count"
    and N: "N = sint (lammps_get_natoms lmp)"
    and size: "0 \<le> N" "count * N \<le> INT_MAX"
    and nl: "nat (nlocal (atom lmp)) \<le> length (tag (atom lmp))"
      "nat (nlocal (atom lmp)) \<le> length (rows f)"
    and tags: "\<forall>i<nat (nlocal (atom lmp)).
                 1 \<le> tag (atom lmp) ! i \<and> tag (atom lmp) ! i \<le> N \<and>
                 nat count \<le> length (rows f ! i)"
  shows "\<exists>copy. gather_stage lmp name type count = Some (Staged copy)"
proof -
  let ?tg = "tag (atom lmp)" and ?nl = "nat (nlocal (atom lmp))"
  let ?n = "nat (count * N)"
  have Nn: "sint (static_cast_int (natoms (atom lmp))) = N"
    using N acc(3) by (simp add: lammps_get_natoms_def)
  have n0: "0 \<le> count * N" using cnt size(1) by simp
  have a: "as_int (count * N) = Some (count * N)"
    unfolding as_int_def INT_MIN_def using n0 size(2) by simp
  have ln: "int (length (replicate ?n (0::'a::zero))) = count * N" using n0 by simp
  have vec: "\<exists>c. gather_vector ?tg vector ?nl (replicate ?n 0) = Some c"
    if "length vector = length (rows f)" "count = 1"
    for vector :: "'a::zero list"
  proof (rule gather_vector_defined)
    show "?nl \<le> length ?tg" using nl(1) .
    show "?nl \<le> length vector" using nl(2) that(1) by simp
    show "\<forall>i<?nl. 1 \<le> ?tg ! i \<and> ?tg ! i \<le> int (length (replicate ?n (0::'a)))"
      using tags ln that(2) by simp
    show "int (length (replicate ?n (0::'a))) \<le> INT_MAX" using ln size(2) by simp
  qed
  have arr: "\<exists>c. gather_array col ?tg array count ?nl (replicate ?n 0) = Some c"
    if "length array = length (rows f)"
       "\<And>k. k < length array \<Longrightarrow> length (array ! k) = length (rows f ! k)"
       "\<And>j. j < nat count \<Longrightarrow> 0 \<le> col (int j) \<and> col (int j) \<le> int j"
    for array :: "'a::zero list list" and col
  proof (rule gather_array_defined[OF cnt])
    show "?nl \<le> length ?tg" using nl(1) .
    show "?nl \<le> length array" using nl(2) that(1) by simp
    show "\<forall>i<?nl. 1 \<le> ?tg ! i \<and> count * ?tg ! i \<le> int (length (replicate ?n (0::'a)))"
    proof (intro allI impI)
      fix i assume i: "i < ?nl"
      then have t: "1 \<le> ?tg ! i" "?tg ! i \<le> N" using tags by auto
      have "count * ?tg ! i \<le> count * N" using t(2) cnt by (simp add: mult_left_mono)
      then show "1 \<le> ?tg ! i \<and> count * ?tg ! i \<le> int (length (replicate ?n (0::'a)))"
        using t(1) ln by simp
    qed
    show "int (length (replicate ?n (0::'a))) \<le> INT_MAX" using ln size(2) by simp
    show "\<forall>i<?nl. \<forall>j<nat count. 0 \<le> col (int j) \<and> nat (col (int j)) < length (array ! i)"
    proof (intro allI impI)
      fix i j assume i: "i < ?nl" and j: "j < nat count"
      have "nat count \<le> length (rows f ! i)" using tags i by auto
      moreover have "length (array ! i) = length (rows f ! i)"
        using that(2)[of i] i nl(2) that(1) by simp
      moreover have "0 \<le> col (int j)" "col (int j) \<le> int j" using that(3)[OF j] by auto
      ultimately show "0 \<le> col (int j) \<and> nat (col (int j)) < length (array ! i)"
        using j by linarith
    qed
  qed
  show ?thesis
  proof (cases f; cases data)
    fix v d assume c: "f = IntVector v" "data = IntData d"
    then have tc: "type = 0" "count = 1" using fits by auto
    obtain c' where "gather_vector ?tg v ?nl (replicate ?n 0) = Some c'"
      using vec[of v] c tc by auto
    then show ?thesis using acc f c tc Nn a n0
      by (simp add: gather_stage_def Let_def create_def)
  next
    fix ar d assume c: "f = IntArray ar" "data = IntData d"
    then have tc: "type = 0" "count \<noteq> 1" using fits by auto
    obtain c' where "gather_array (\<lambda>j. 0) ?tg ar count ?nl (replicate ?n 0) = Some c'"
      using arr[of ar "\<lambda>j. 0"] c by auto
    then show ?thesis using acc f c tc Nn a n0
      by (simp add: gather_stage_def Let_def create_def)
  next
    fix v d assume c: "f = DoubleVector v" "data = DoubleData d"
    then have tc: "type \<noteq> 0" "count = 1" using fits by auto
    obtain c' where "gather_vector ?tg v ?nl (replicate ?n 0) = Some c'"
      using vec[of v] c tc by auto
    then show ?thesis using acc f c tc Nn a n0
      by (simp add: gather_stage_def Let_def create_def)
  next
    fix ar d assume c: "f = DoubleArray ar" "data = DoubleData d"
    then have tc: "type \<noteq> 0" "count \<noteq> 1" using fits by auto
    obtain c' where "gather_array (\<lambda>j. j) ?tg ar count ?nl (replicate ?n 0) = Some c'"
      using arr[of ar "\<lambda>j. j"] c by auto
    then show ?thesis using acc f c tc Nn a n0
      by (simp add: gather_stage_def Let_def create_def)
  qed (use fits in auto)
qed

lemma allreduce_defined:
  assumes "cs \<noteq> []" and "\<forall>c\<in>set cs. length c = n" and "\<forall>d\<in>set datas. n \<le> length d"
  shows "\<exists>out. allreduce cs datas = Some out"
proof -
  obtain c rest where cs: "cs = c # rest" using assms(1) by (cases cs) auto
  let ?s = "foldl (map2 (+)) c rest"
  have lc: "length c = n" and lr: "\<forall>x\<in>set rest. length x = n" using assms(2) cs by simp_all
  have ls: "length ?s = n" by (rule foldl_map2_length[OF lc lr])
  have all: "list_all (\<lambda>x. length x = length c) (c # rest)"
    using lc lr by (simp add: list_all_iff)
  have "those (map (receive ?s) datas) = Some (map (\<lambda>d. ?s @ drop (length ?s) d) datas)"
    by (rule those_map_Some) (use assms(3) ls in \<open>simp add: receive_def\<close>)
  then show ?thesis unfolding cs allreduce_Cons using all by (simp only: if_True) blast
qed

lemma fits_data:
  assumes "fits type count f data"
  shows "if type = 0 then data = IntData (ints data) else data = DoubleData (doubles data)"
  using assms by (cases f; cases data) auto

text \<open>
  Gather returns on all ranks, after every rank staged its buffer, in a world of ranks
  that pass the checks and agree on the atom count \<open>N\<close>, with \<open>count * N\<close> an \<^verbatim>\<open>int\<close>, when
  on every rank the storage and the buffer fit \<^verbatim>\<open>type\<close> and \<^verbatim>\<open>count\<close>, the buffer holds
  \<open>count * N\<close> elements, and every local atom has a tag in \<open>1..N\<close> and \<open>count\<close> components.
\<close>

lemma gather_returns:
  fixes world :: "(LAMMPS \<times> buffer) list"
  assumes ne: "world \<noteq> []" and cnt: "0 < count" and size: "0 \<le> N" "count * N \<le> INT_MAX"
    and ranks: "\<forall>(lmp, data)\<in>set world.
        tag_enable (atom lmp) \<noteq> 0 \<and> tag_consecutive (atom lmp) \<noteq> 0 \<and>
        sint (natoms (atom lmp)) \<le> MAXSMALLINT \<and>
        sint (lammps_get_natoms lmp) = N \<and> nat (count * N) \<le> length (elems data) \<and>
        (\<exists>f. extract_atom (atom lmp) name = Some f \<and> fits type count f data \<and>
             nat (nlocal (atom lmp)) \<le> length (tag (atom lmp)) \<and>
             nat (nlocal (atom lmp)) \<le> length (rows f) \<and>
             (\<forall>i<nat (nlocal (atom lmp)).
                1 \<le> tag (atom lmp) ! i \<and> tag (atom lmp) ! i \<le> N \<and>
                nat count \<le> length (rows f ! i)))"
  shows "\<exists>res copies. lammps_gather_atoms world name type count = Returned res \<and>
           map (\<lambda>(lmp, data). gather_stage lmp name type count) world =
             map (\<lambda>c. Some (Staged c)) copies"
proof -
  let ?n = "nat (count * N)"
  have each: "\<exists>copy. gather_stage (fst x) name type count = Some (Staged copy)"
    if x: "x \<in> set world" for x
  proof -
    obtain lmp data where xd: "x = (lmp, data)" by (cases x)
    from ranks x xd obtain f where
      acc: "tag_enable (atom lmp) \<noteq> 0" "tag_consecutive (atom lmp) \<noteq> 0"
        "sint (natoms (atom lmp)) \<le> MAXSMALLINT"
      and N: "N = sint (lammps_get_natoms lmp)"
      and f: "extract_atom (atom lmp) name = Some f" and fits: "fits type count f data"
      and nl: "nat (nlocal (atom lmp)) \<le> length (tag (atom lmp))"
        "nat (nlocal (atom lmp)) \<le> length (rows f)"
      and tags: "\<forall>i<nat (nlocal (atom lmp)).
                1 \<le> tag (atom lmp) ! i \<and> tag (atom lmp) ! i \<le> N \<and>
                nat count \<le> length (rows f ! i)"
      by fastforce
    show ?thesis
      using gather_stage_defined[OF acc f fits cnt N size nl tags] xd by simp
  qed
  then obtain g where g: "\<forall>x\<in>set world. gather_stage (fst x) name type count = Some (Staged (g x))"
    by metis
  let ?copies = "map g world"
  let ?stages = "map Staged ?copies"
  have st: "map (\<lambda>(lmp, data). gather_stage lmp name type count) world =
            map (\<lambda>c. Some (Staged c)) ?copies"
    using g by (simp add: case_prod_beta)
  have th: "those (map (\<lambda>(lmp, data). gather_stage lmp name type count) world) = Some ?stages"
    unfolding st by (rule those_Some_Staged)
  have na: "\<not> list_all is_Abort ?stages" using ne by (cases world) auto
  have nx: "\<not> list_ex is_Abort ?stages" by (induction world) auto
  have staged: "length (elems (g x)) = ?n \<and>
      (if type = 0 then g x = IntData (ints (g x)) else g x = DoubleData (doubles (g x)))"
    if x: "x \<in> set world" for x
  proof -
    have "gather_stage (fst x) name type count = Some (Staged (g x))" using g x by blast
    from gather_stage_Staged[OF this cnt]
    have l: "length (elems (g x)) =
               nat (count * sint (static_cast_int (natoms (atom (fst x)))))"
      and e: "lammps_get_natoms (fst x) = static_cast_int (natoms (atom (fst x)))"
      and k: "if type = 0 then g x = IntData (ints (g x)) else g x = DoubleData (doubles (g x))"
      by auto
    have "sint (lammps_get_natoms (fst x)) = N" using ranks x by (auto simp: case_prod_beta)
    then show ?thesis using l e k by simp
  qed
  have datas: "?n \<le> length (elems (snd x)) \<and>
      (if type = 0 then snd x = IntData (ints (snd x)) else snd x = DoubleData (doubles (snd x)))"
    if x: "x \<in> set world" for x
  proof -
    obtain lmp data where xd: "x = (lmp, data)" by (cases x)
    from ranks x xd obtain f where "fits type count f data" "?n \<le> length (elems data)"
      by fastforce
    then show ?thesis using fits_data xd by simp
  qed
  show ?thesis
  proof (cases "type = 0")
    case True
    have k: "g x = IntData (ints (g x))" if "x \<in> set world" for x
      using staged[OF that] True by simp
    have d: "snd x = IntData (ints (snd x))" if "x \<in> set world" for x
      using datas[OF that] True by simp
    have cs: "those (map staged_int ?stages) = Some (map (\<lambda>x. ints (g x)) world)"
    proof -
      have "staged_int (Staged (g x)) = Some (ints (g x))" if "x \<in> set world" for x
        using k[OF that] by (metis staged_int.simps(1))
      then have "those (map (\<lambda>x. staged_int (Staged (g x))) world) =
                 Some (map (\<lambda>x. ints (g x)) world)"
        by (intro those_map_Some) simp
      then show ?thesis by (simp add: o_def)
    qed
    have ds: "those (map (int_data \<circ> snd) world) = Some (map (\<lambda>x. ints (snd x)) world)"
    proof (rule those_map_Some)
      fix x assume "x \<in> set world"
      then show "(int_data \<circ> snd) x = Some (ints (snd x))"
        using d by (metis comp_apply int_data.simps(1))
    qed
    have "\<exists>out. allreduce (map (\<lambda>x. ints (g x)) world) (map (\<lambda>x. ints (snd x)) world) = Some out"
    proof (rule allreduce_defined[where n = ?n])
      show "map (\<lambda>x. ints (g x)) world \<noteq> []" using ne by simp
      show "\<forall>c\<in>set (map (\<lambda>x. ints (g x)) world). length c = ?n"
      proof
        fix c assume "c \<in> set (map (\<lambda>x. ints (g x)) world)"
        then obtain x where x: "x \<in> set world" "c = ints (g x)" by auto
        have "length (elems (g x)) = length (ints (g x))"
          using elems_IntData[OF k[OF x(1)]] by (metis length_map)
        then show "length c = ?n" using staged[OF x(1)] x(2) by simp
      qed
      show "\<forall>d\<in>set (map (\<lambda>x. ints (snd x)) world). ?n \<le> length d"
      proof
        fix dd assume "dd \<in> set (map (\<lambda>x. ints (snd x)) world)"
        then obtain x where x: "x \<in> set world" "dd = ints (snd x)" by auto
        have "length (elems (snd x)) = length (ints (snd x))"
          using elems_IntData[OF d[OF x(1)]] by (metis length_map)
        then show "?n \<le> length dd" using datas[OF x(1)] x(2) by simp
      qed
    qed
    then obtain out where
      al: "allreduce (map (\<lambda>x. ints (g x)) world) (map (\<lambda>x. ints (snd x)) world) = Some out"
      by blast
    have "lammps_gather_atoms world name type count = Returned (map (\<lambda>d. ([], IntData d)) out)"
      unfolding lammps_gather_atoms_def th using na nx True cs ds al by simp
    then show ?thesis using st by blast
  next
    case False
    have k: "g x = DoubleData (doubles (g x))" if "x \<in> set world" for x
      using staged[OF that] False by simp
    have d: "snd x = DoubleData (doubles (snd x))" if "x \<in> set world" for x
      using datas[OF that] False by simp
    have cs: "those (map staged_double ?stages) = Some (map (\<lambda>x. doubles (g x)) world)"
    proof -
      have "staged_double (Staged (g x)) = Some (doubles (g x))" if "x \<in> set world" for x
        using k[OF that] by (metis staged_double.simps(1))
      then have "those (map (\<lambda>x. staged_double (Staged (g x))) world) =
                 Some (map (\<lambda>x. doubles (g x)) world)"
        by (intro those_map_Some) simp
      then show ?thesis by (simp add: o_def)
    qed
    have ds: "those (map (double_data \<circ> snd) world) = Some (map (\<lambda>x. doubles (snd x)) world)"
    proof (rule those_map_Some)
      fix x assume "x \<in> set world"
      then show "(double_data \<circ> snd) x = Some (doubles (snd x))"
        using d by (metis comp_apply double_data.simps(1))
    qed
    have "\<exists>out. allreduce (map (\<lambda>x. doubles (g x)) world) (map (\<lambda>x. doubles (snd x)) world) =
            Some out"
    proof (rule allreduce_defined[where n = ?n])
      show "map (\<lambda>x. doubles (g x)) world \<noteq> []" using ne by simp
      show "\<forall>c\<in>set (map (\<lambda>x. doubles (g x)) world). length c = ?n"
      proof
        fix c assume "c \<in> set (map (\<lambda>x. doubles (g x)) world)"
        then obtain x where x: "x \<in> set world" "c = doubles (g x)" by auto
        have "length (elems (g x)) = length (doubles (g x))"
          using elems_DoubleData[OF k[OF x(1)]] by (metis length_map)
        then show "length c = ?n" using staged[OF x(1)] x(2) by simp
      qed
      show "\<forall>d\<in>set (map (\<lambda>x. doubles (snd x)) world). ?n \<le> length d"
      proof
        fix dd assume "dd \<in> set (map (\<lambda>x. doubles (snd x)) world)"
        then obtain x where x: "x \<in> set world" "dd = doubles (snd x)" by auto
        have "length (elems (snd x)) = length (doubles (snd x))"
          using elems_DoubleData[OF d[OF x(1)]] by (metis length_map)
        then show "?n \<le> length dd" using datas[OF x(1)] x(2) by simp
      qed
    qed
    then obtain out where
      al: "allreduce (map (\<lambda>x. doubles (g x)) world) (map (\<lambda>x. doubles (snd x)) world) =
             Some out"
      by blast
    have "lammps_gather_atoms world name type count =
            Returned (map (\<lambda>d. ([], DoubleData d)) out)"
      unfolding lammps_gather_atoms_def th using na nx False cs ds al by simp
    then show ?thesis using st by blast
  qed
qed

subsection \<open>Independence of the partition\<close>

text \<open>
  The gathered elements are determined by the staging buffers, whatever the destination
  buffers held before.
\<close>

lemma gather_prefix:
  assumes ret: "lammps_gather_atoms world name type count = Returned res"
    and st: "map (\<lambda>(lmp, data). gather_stage lmp name type count) world =
               map (\<lambda>c. Some (Staged c)) copies"
    and cnt: "0 < count" and r: "r < length world"
    and k: "k < nat (count * sint (lammps_get_natoms (fst (world ! r))))"
  shows "k < length (elems (snd (res ! r))) \<and>
         elems (snd (res ! r)) ! k =
           (if type = 0
            then I32 (foldl (+) (hd (map (\<lambda>c. ints c ! k) copies))
                        (tl (map (\<lambda>c. ints c ! k) copies)))
            else F64 (foldl (+) (hd (map (\<lambda>c. doubles c ! k) copies))
                        (tl (map (\<lambda>c. doubles c ! k) copies))))"
proof -
  note G = gather_Returned[OF ret st r]
  from gather_stage_Staged[OF stage_of_rank[OF st r] cnt]
  have lr: "length (elems (copies ! r)) =
              nat (count * sint (lammps_get_natoms (fst (world ! r))))"
    by auto
  have lc: "length copies = length world" using arg_cong[OF st, of length] by simp
  have rc: "copies ! r \<in> set copies" using r lc by simp
  show ?thesis
  proof (cases "type = 0")
    case True
    then have kind: "snd (res ! r) = IntData (ints (snd (res ! r)))"
      and le: "length (ints (copies ! 0)) \<le> length (ints (snd (res ! r)))"
      and eq: "\<forall>c\<in>set copies. length (ints c) = length (ints (copies ! 0))"
      and sum: "\<forall>k<length (ints (copies ! 0)).
                    ints (snd (res ! r)) ! k =
                      foldl (+) (hd (map (\<lambda>c. ints c ! k) copies))
                        (tl (map (\<lambda>c. ints c ! k) copies))"
      and wr: "copies = map IntData (map ints copies)"
      using G by simp_all
    have "copies ! r = IntData (ints (copies ! r))" using nth_map_wrap[OF wr] r lc by simp
    then have "length (elems (copies ! r)) = length (ints (copies ! r))"
      using elems_IntData by (metis length_map)
    then have k0: "k < length (ints (copies ! 0))" using lr k eq rc by simp
    then have kr: "k < length (ints (snd (res ! r)))" using le by simp
    have "elems (snd (res ! r)) ! k = I32 (ints (snd (res ! r)) ! k)"
      using elems_IntData[OF kind] kr by simp
    moreover have "k < length (elems (snd (res ! r)))"
      using elems_IntData[OF kind] kr by simp
    ultimately show ?thesis using sum k0 True by simp
  next
    case False
    then have kind: "snd (res ! r) = DoubleData (doubles (snd (res ! r)))"
      and le: "length (doubles (copies ! 0)) \<le> length (doubles (snd (res ! r)))"
      and eq: "\<forall>c\<in>set copies. length (doubles c) = length (doubles (copies ! 0))"
      and sum: "\<forall>k<length (doubles (copies ! 0)).
                    doubles (snd (res ! r)) ! k =
                      foldl (+) (hd (map (\<lambda>c. doubles c ! k) copies))
                        (tl (map (\<lambda>c. doubles c ! k) copies))"
      and wr: "copies = map DoubleData (map doubles copies)"
      using G by simp_all
    have "copies ! r = DoubleData (doubles (copies ! r))"
      using nth_map_wrap[OF wr] r lc by simp
    then have "length (elems (copies ! r)) = length (doubles (copies ! r))"
      using elems_DoubleData by (metis length_map)
    then have k0: "k < length (doubles (copies ! 0))" using lr k eq rc by simp
    then have kr: "k < length (doubles (snd (res ! r)))" using le by simp
    have "elems (snd (res ! r)) ! k = F64 (doubles (snd (res ! r)) ! k)"
      using elems_DoubleData[OF kind] kr by simp
    moreover have "k < length (elems (snd (res ! r)))"
      using elems_DoubleData[OF kind] kr by simp
    ultimately show ?thesis using sum k0 False by simp
  qed
qed

lemma staged_same_states:
  fixes w1 w2 :: "(LAMMPS \<times> buffer) list"
  assumes s1: "map (\<lambda>(lmp, data). gather_stage lmp name type count) w1 =
               map (\<lambda>c. Some (Staged c)) c1"
    and s2: "map (\<lambda>(lmp, data). gather_stage lmp name type count) w2 =
               map (\<lambda>c. Some (Staged c)) c2"
    and same: "map fst w1 = map fst w2"
  shows "c1 = c2"
proof -
  have e: "map (\<lambda>(lmp, data). gather_stage lmp name type count) w =
           map (\<lambda>lmp. gather_stage lmp name type count) (map fst w)"
    for w :: "(LAMMPS \<times> buffer) list"
    by (simp add: case_prod_beta)
  have "map (\<lambda>c. Some (Staged c)) c1 =
        map (\<lambda>lmp. gather_stage lmp name type count) (map fst w1)"
    using s1 e[of w1] by (simp only:)
  also have "\<dots> = map (\<lambda>lmp. gather_stage lmp name type count) (map fst w2)"
    using same by (simp only:)
  also have "\<dots> = map (\<lambda>c. Some (Staged c)) c2"
    using s2 e[of w2] by (simp only:)
  finally have "map (\<lambda>c. Some (Staged c)) c1 = map (\<lambda>c. Some (Staged c)) c2" .
  moreover have "inj (\<lambda>c. Some (Staged c))" by (auto simp: inj_on_def)
  ultimately show ?thesis using inj_map_eq_map by blast
qed

text \<open>
  C6, as the specification states it: for any two partitionings of the same atoms with the same
  field values, the gathered buffers are byte-identical. This fails for an atom whose
  value is the negative zero. Both worlds below hold this one atom, gather returns in
  both after every rank staged its buffer, and the owner stages \<open>-0.0\<close>. The only rank
  of the first world receives its own staging buffer, with \<open>-0.0\<close>; in the second world
  the zero of the other rank is added, and every rank receives \<open>+0.0\<close>, another bit
  pattern.
\<close>

theorem gather_negative_zero_depends_on_partition:
  "lammps_gather_atoms minus_zero_one_rank ''q'' 1 1 =
     Returned [([], DoubleData [Double True 0 0])] \<and>
   lammps_gather_atoms minus_zero_two_ranks ''q'' 1 1 =
     Returned [([], DoubleData [Double False 0 0]), ([], DoubleData [Double False 0 0])] \<and>
   map (\<lambda>(lmp, data). gather_stage lmp ''q'' 1 1) minus_zero_one_rank =
     [Some (Staged (DoubleData [Double True 0 0]))] \<and>
   map (\<lambda>(lmp, data). gather_stage lmp ''q'' 1 1) minus_zero_two_ranks =
     [Some (Staged (DoubleData [Double True 0 0])), Some (Staged (DoubleData [Double False 0 0]))] \<and>
   map (\<lambda>(lmp, data). natoms (atom lmp)) (minus_zero_one_rank @ minus_zero_two_ranks) =
     [1, 1, 1] \<and>
   atoms_of minus_zero_one_rank ''q'' = [(1, [F64 (Double True 0 0)])] \<and>
   atoms_of minus_zero_two_ranks ''q'' = [(1, [F64 (Double True 0 0)])] \<and>
   take 1 (elems (DoubleData [Double True 0 0])) \<noteq> take 1 (elems (DoubleData [Double False 0 0]))"
  by (simp add: ev minus_zero_one_rank_def minus_zero_two_ranks_def plus_double_def
      zero_double_def fadd_def is_nan_def is_inf_def units_def magnitude_def atoms_of_def
      owned_def owned_tags_def)

text \<open>
  C6, amended. Take two worlds with the same atom count in which gather returns after
  every rank staged its buffer (lemma \<open>gather_returns\<close> says when it does). Let the two be a repeated gather, the same states of
  the ranks with any destination buffers; or let them be two partitionings: each tag
  has one owner in either world, both worlds hold the same atoms, that is the same
  pairs of a tag and the row of the property, and no component of a row is a NaN or the
  negative zero. Then the first \<open>count * N\<close> elements of the result on any rank of the
  first world and on any rank of the second are the same integers or the same bit
  patterns of doubles, whatever the buffers held before.
\<close>

theorem gather_partition_independent:
  assumes r1: "lammps_gather_atoms w1 name type count = Returned res1"
    and r2: "lammps_gather_atoms w2 name type count = Returned res2"
    and s1: "map (\<lambda>(lmp, data). gather_stage lmp name type count) w1 =
               map (\<lambda>c. Some (Staged c)) c1"
    and s2: "map (\<lambda>(lmp, data). gather_stage lmp name type count) w2 =
               map (\<lambda>c. Some (Staged c)) c2"
    and cnt: "0 < count"
    and n: "\<forall>(lmp, data)\<in>set (w1 @ w2). natoms (atom lmp) = n"
    and same: "map fst w1 = map fst w2 \<or>
               distinct (map fst (atoms_of w1 name)) \<and>
               distinct (map fst (atoms_of w2 name)) \<and>
               set (atoms_of w1 name) = set (atoms_of w2 name) \<and>
               (\<forall>(t, row)\<in>set (atoms_of w1 name). list_all ordinary_number row)"
    and a: "a < length w1" and b: "b < length w2"
  shows "take (nat (count * sint (static_cast_int n))) (elems (snd (res1 ! a))) =
         take (nat (count * sint (static_cast_int n))) (elems (snd (res2 ! b)))"
proof -
  let ?n = "nat (count * sint (static_cast_int n))"
  have na: "natoms (atom (fst (w1 ! a))) = n" using n a by (auto simp: case_prod_beta)
  have nb: "natoms (atom (fst (w2 ! b))) = n" using n b by (auto simp: case_prod_beta)
  from gather_stage_Staged[OF stage_of_rank[OF s1 a] cnt] na
  have Na: "sint (lammps_get_natoms (fst (w1 ! a))) = sint (static_cast_int n)" by auto
  from gather_stage_Staged[OF stage_of_rank[OF s2 b] cnt] nb
  have Nb: "sint (lammps_get_natoms (fst (w2 ! b))) = sint (static_cast_int n)" by auto
  note P1 = gather_prefix[OF r1 s1 cnt a, unfolded Na]
  note P2 = gather_prefix[OF r2 s2 cnt b, unfolded Nb]
  have len: "length (take ?n (elems (snd (res1 ! a)))) =
        length (take ?n (elems (snd (res2 ! b))))"
  proof -
    have "?n \<le> length (elems (snd (res1 ! a)))"
    proof (cases ?n)
      case 0 then show ?thesis by simp
    next
      case (Suc m)
      then have "m < ?n" by simp
      from P1[OF this] show ?thesis using Suc by simp
    qed
    moreover have "?n \<le> length (elems (snd (res2 ! b)))"
    proof (cases ?n)
      case 0 then show ?thesis by simp
    next
      case (Suc m)
      then have "m < ?n" by simp
      from P2[OF this] show ?thesis using Suc by simp
    qed
    ultimately show ?thesis by simp
  qed
  have "elems (snd (res1 ! a)) ! k = elems (snd (res2 ! b)) ! k" if k: "k < ?n" for k
  proof (cases "map fst w1 = map fst w2")
    case True
    have "c1 = c2" using s1 s2 True by (rule staged_same_states)
    then show ?thesis using P1[OF k] P2[OF k] by simp
  next
    case False
    then have d1: "distinct (map fst (atoms_of w1 name))"
      and d2: "distinct (map fst (atoms_of w2 name))"
      and eq: "set (atoms_of w1 name) = set (atoms_of w2 name)"
      and ord: "\<forall>(t, row)\<in>set (atoms_of w1 name). list_all ordinary_number row"
      using same by blast+
    have ord2: "\<forall>(t, row)\<in>set (atoms_of w2 name). list_all ordinary_number row"
      using ord eq by simp
    note L1 = gather_layout[OF r1 s1 cnt a d1 ord, unfolded Na]
    note L2 = gather_layout[OF r2 s2 cnt b d2 ord2, unfolded Nb]
    let ?t = "int k div count + 1"
    show ?thesis
    proof (cases "?t \<in> fst ` set (atoms_of w1 name)")
      case True
      then obtain row where row: "(?t, row) \<in> set (atoms_of w1 name)" by force
      then have row2: "(?t, row) \<in> set (atoms_of w2 name)" using eq by simp
      show ?thesis using L1[OF k] L2[OF k] row row2 by simp
    next
      case False
      then have "?t \<notin> fst ` set (atoms_of w2 name)" using eq by simp
      then show ?thesis using L1[OF k] L2[OF k] False by simp
    qed
  qed
  then show ?thesis using len by (intro nth_equalityI) simp_all
qed

text \<open>
  Two atoms with three double components each, on two ranks and on one rank: the six
  gathered elements are the same. So are those of the two ranks of one world, whose
  buffers differed before; here the values may be negative zeros.
\<close>

theorem gather_partition_independent_witness:
  "lammps_gather_atoms (two_ranks 2) ''x'' 1 3 =
     Returned [([], DoubleData [dbl 4, dbl 5, dbl 6, dbl 1, dbl 2, dbl 3, dbl 9]),
               ([], DoubleData [dbl 4, dbl 5, dbl 6, dbl 1, dbl 2, dbl 3])] \<and>
   lammps_gather_atoms one_rank ''x'' 1 3 =
     Returned [([], DoubleData [dbl 4, dbl 5, dbl 6, dbl 1, dbl 2, dbl 3])] \<and>
   take 6 (elems (DoubleData [dbl 4, dbl 5, dbl 6, dbl 1, dbl 2, dbl 3, dbl 9])) =
   take 6 (elems (DoubleData [dbl 4, dbl 5, dbl 6, dbl 1, dbl 2, dbl 3])) \<and>
   lammps_gather_atoms minus_zero_two_ranks ''q'' 1 1 =
     Returned [([], DoubleData [Double False 0 0]), ([], DoubleData [Double False 0 0])] \<and>
   take 1 (elems (DoubleData [Double False 0 0])) = take 1 (elems (DoubleData [Double False 0 0]))"
proof -
  let ?res1 = "[([] :: string list, DoubleData [dbl 4, dbl 5, dbl 6, dbl 1, dbl 2, dbl 3, dbl 9]),
                ([], DoubleData [dbl 4, dbl 5, dbl 6, dbl 1, dbl 2, dbl 3])]"
  let ?res2 = "[([] :: string list, DoubleData [dbl 4, dbl 5, dbl 6, dbl 1, dbl 2, dbl 3])]"
  note z = ordinary_dbl[THEN plus_double_zero(1)] ordinary_dbl[THEN plus_double_zero(2)]
  have r1: "lammps_gather_atoms (two_ranks 2) ''x'' 1 3 = Returned ?res1"
    by (simp add: ev two_ranks_def eval_nat_numeral z)
  have r2: "lammps_gather_atoms one_rank ''x'' 1 3 = Returned ?res2"
    by (simp add: ev one_rank_def eval_nat_numeral)
  have s1: "map (\<lambda>(lmp, data). gather_stage lmp ''x'' 1 3) (two_ranks 2) =
              map (\<lambda>c. Some (Staged c))
                [DoubleData [0, 0, 0, dbl 1, dbl 2, dbl 3], DoubleData [dbl 4, dbl 5, dbl 6, 0, 0, 0]]"
    by (simp add: ev two_ranks_def eval_nat_numeral)
  have s2: "map (\<lambda>(lmp, data). gather_stage lmp ''x'' 1 3) one_rank =
              map (\<lambda>c. Some (Staged c)) [DoubleData [dbl 4, dbl 5, dbl 6, dbl 1, dbl 2, dbl 3]]"
    by (simp add: ev one_rank_def eval_nat_numeral)
  have n: "\<forall>(lmp, data)\<in>set (two_ranks 2 @ one_rank). natoms (atom lmp) = 2"
    by (simp add: two_ranks_def one_rank_def rank_def)
  have a1: "atoms_of (two_ranks 2) ''x'' =
      [(2, [F64 (dbl 1), F64 (dbl 2), F64 (dbl 3)]), (1, [F64 (dbl 4), F64 (dbl 5), F64 (dbl 6)])]"
    by (simp add: atoms_of_def owned_def owned_tags_def two_ranks_def rank_def)
  have a2: "atoms_of one_rank ''x'' =
      [(1, [F64 (dbl 4), F64 (dbl 5), F64 (dbl 6)]), (2, [F64 (dbl 1), F64 (dbl 2), F64 (dbl 3)])]"
    by (simp add: atoms_of_def owned_def owned_tags_def one_rank_def rank_def)
  have same: "map fst (two_ranks 2) = map fst one_rank \<or>
              distinct (map fst (atoms_of (two_ranks 2) ''x'')) \<and>
              distinct (map fst (atoms_of one_rank ''x'')) \<and>
              set (atoms_of (two_ranks 2) ''x'') = set (atoms_of one_rank ''x'') \<and>
              (\<forall>(t, row)\<in>set (atoms_of (two_ranks 2) ''x''). list_all ordinary_number row)"
    unfolding a1 a2 by (auto simp: ordinary_dbl)
  have "take (nat (3 * sint (static_cast_int 2))) (elems (snd (?res1 ! 0))) =
        take (nat (3 * sint (static_cast_int 2))) (elems (snd (?res2 ! 0)))"
    by (rule gather_partition_independent[OF r1 r2 s1 s2 _ n same, where a = 0 and b = 0])
       (simp_all add: two_ranks_def one_rank_def)
  then have 1: "take 6 (elems (DoubleData [dbl 4, dbl 5, dbl 6, dbl 1, dbl 2, dbl 3, dbl 9])) =
             take 6 (elems (DoubleData [dbl 4, dbl 5, dbl 6, dbl 1, dbl 2, dbl 3]))"
    by (simp add: static_cast_int_def)
  let ?res3 = "[([] :: string list, DoubleData [Double False 0 0]), ([], DoubleData [Double False 0 0])]"
  have r3: "lammps_gather_atoms minus_zero_two_ranks ''q'' 1 1 = Returned ?res3"
    by (simp add: ev minus_zero_two_ranks_def plus_double_def zero_double_def fadd_def
        is_nan_def is_inf_def units_def magnitude_def)
  have s3: "map (\<lambda>(lmp, data). gather_stage lmp ''q'' 1 1) minus_zero_two_ranks =
              map (\<lambda>c. Some (Staged c)) [DoubleData [Double True 0 0], DoubleData [Double False 0 0]]"
    by (simp add: ev minus_zero_two_ranks_def zero_double_def)
  have n3: "\<forall>(lmp, data)\<in>set (minus_zero_two_ranks @ minus_zero_two_ranks).
              natoms (atom lmp) = 1"
    by (simp add: minus_zero_two_ranks_def rank_def)
  have "take (nat (1 * sint (static_cast_int 1))) (elems (snd (?res3 ! 0))) =
        take (nat (1 * sint (static_cast_int 1))) (elems (snd (?res3 ! 1)))"
    by (rule gather_partition_independent[OF r3 r3 s3 s3 _ n3, where a = 0 and b = 1])
       (simp_all add: minus_zero_two_ranks_def)
  then have 2: "take 1 (elems (DoubleData [Double False 0 0])) =
                take 1 (elems (DoubleData [Double False 0 0]))"
    by (simp add: static_cast_int_def)
  show ?thesis using r1 r2 1 r3 2 by simp
qed
subsection \<open>The layout by tag, and the round trip\<close>

lemma block_div_mod:
  fixes count :: int
  assumes "0 < count" "0 \<le> c" "c < count"
  shows "(count * a + c) div count = a \<and> (count * a + c) mod count = c"
proof -
  have "(count * a + c) div count = a + c div count"
    using assms(1) by (simp add: add.commute)
  moreover have "c div count = 0" using assms by simp
  moreover have "(count * a + c) mod count = c mod count" by (simp add: add.commute)
  moreover have "c mod count = c" using assms by simp
  ultimately show ?thesis by simp
qed

lemma gather_layout_by_tag:
  assumes ret: "lammps_gather_atoms world name type count = Returned res"
    and st: "map (\<lambda>(lmp, data). gather_stage lmp name type count) world =
               map (\<lambda>c. Some (Staged c)) copies"
    and cnt: "0 < count" and r: "r < length world"
    and d: "distinct (map fst (atoms_of world name))"
    and ord: "\<forall>(t, row)\<in>set (atoms_of world name). list_all ordinary_number row"
    and row: "(t, row) \<in> set (atoms_of world name)"
    and t: "1 \<le> t" "t \<le> sint (lammps_get_natoms (fst (world ! r)))"
    and c: "0 \<le> c" "c < count"
  shows "nat (count * (t - 1) + c) < length (elems (snd (res ! r))) \<and>
         nat (column type c) < length row \<and>
         elems (snd (res ! r)) ! nat (count * (t - 1) + c) = row ! nat (column type c)"
proof -
  let ?k = "nat (count * (t - 1) + c)"
  from offset_in_range[OF cnt t c]
  have k0: "0 \<le> count * (t - 1) + c"
    and k: "?k < nat (count * sint (lammps_get_natoms (fst (world ! r))))"
    by simp_all
  have ik: "int ?k = count * (t - 1) + c" using k0 by simp
  from block_div_mod[OF cnt c, of "t - 1"]
  have dm: "int ?k div count + 1 = t" "int ?k mod count = c" unfolding ik by simp_all
  from gather_layout[OF ret st cnt r d ord k] show ?thesis unfolding dm using row by blast
qed

text \<open>
  On the double path, and on either path for \<open>count = 1\<close>, component \<open>c\<close> of the atom with
  tag \<open>t\<close> is at offset \<open>count * (t - 1) + c\<close> of the gathered buffer, when each tag has
  one owner and no component is a NaN or the negative zero.
\<close>

lemma gather_layout_without_slip:
  assumes ret: "lammps_gather_atoms world name type count = Returned res"
    and st: "map (\<lambda>(lmp, data). gather_stage lmp name type count) world =
               map (\<lambda>c. Some (Staged c)) copies"
    and cnt: "0 < count" and r: "r < length world"
    and d: "distinct (map fst (atoms_of world name))"
    and ord: "\<forall>(t, row)\<in>set (atoms_of world name). list_all ordinary_number row"
    and noslip: "type \<noteq> 0 \<or> count = 1"
    and row: "(t, row) \<in> set (atoms_of world name)"
    and t: "1 \<le> t" "t \<le> sint (lammps_get_natoms (fst (world ! r)))"
    and c: "0 \<le> c" "c < count"
  shows "elems (snd (res ! r)) ! nat (count * (t - 1) + c) = row ! nat c"
proof -
  have "column type c = c" using noslip c by (auto simp: column_def)
  then show ?thesis using gather_layout_by_tag[OF ret st cnt r d ord row t c] by simp
qed

lemma rows_same_shape:
  assumes "same_shape f f'" and "rows f = rows f'"
  shows "f = f'"
proof -
  have i1: "inj (\<lambda>x. [I32 x])" and i2: "inj (\<lambda>x. [F64 x])"
    and i3: "inj (map I32)" and i4: "inj (map F64)"
    by (auto simp: inj_on_def)
  show ?thesis
    using assms inj_map_eq_map[OF i1] inj_map_eq_map[OF i2] inj_map_eq_map[OF i3]
      inj_map_eq_map[OF i4]
    by (cases f; cases f') auto
qed

lemma store_same:
  assumes "extract_atom (atom lmp) name = Some f"
  shows "store lmp name f = lmp"
proof -
  have "(extract_atom (atom lmp))(name := Some f) = extract_atom (atom lmp)"
    using assms by (simp add: fun_upd_idem)
  then show ?thesis by (simp add: store_def)
qed

lemma last_resolving_tag:
  fixes mp :: "int \<Rightarrow> int"
  assumes "t \<in> {1..N}" and "mp t = m"
  shows "\<exists>s\<in>{1..N}. mp s = m \<and> (\<forall>s'\<in>{s<..N}. mp s' \<noteq> m)"
proof -
  let ?T = "{s \<in> {1..N}. mp s = m}"
  have fin: "finite ?T" by (rule finite_subset[of _ "{1..N}"]) auto
  have ne: "?T \<noteq> {}" using assms by auto
  have mx: "Max ?T \<in> ?T" using Max_in[OF fin ne] .
  have "\<forall>s'\<in>{Max ?T<..N}. mp s' \<noteq> m"
  proof
    fix s' assume s': "s' \<in> {Max ?T<..N}"
    show "mp s' \<noteq> m"
    proof
      assume "mp s' = m"
      then have "s' \<in> ?T" using s' mx by auto
      then have "s' \<le> Max ?T" using fin by simp
      then show False using s' by simp
    qed
  qed
  then show ?thesis using mx by blast
qed


text \<open>
  On the same paths and under the same conditions, a gather followed by a scatter of the
  gathered buffer leaves the state of a rank as it was, provided the lookup of the rank
  is consistent with its tags: a tag that resolves, resolves to the slot of the owned
  atom with that tag.
\<close>

lemma gather_scatter_round_trip:
  assumes ret: "lammps_gather_atoms world name type count = Returned res"
    and st: "map (\<lambda>(lmp, data). gather_stage lmp name type count) world =
               map (\<lambda>c. Some (Staged c)) copies"
    and cnt: "0 < count" and r: "r < length world"
    and d: "distinct (map fst (atoms_of world name))"
    and ord: "\<forall>(t, row)\<in>set (atoms_of world name). list_all ordinary_number row"
    and noslip: "type \<noteq> 0 \<or> count = 1"
    and lmp: "lmp = fst (world ! r)"
    and ms: "map_style (atom lmp) \<noteq> 0"
    and N: "N = sint (lammps_get_natoms lmp)"
    and mp: "\<forall>t\<in>{1..N}. 0 \<le> map_atom (atom lmp) t \<longrightarrow>
               nat (map_atom (atom lmp) t) < nat (nlocal (atom lmp)) \<and>
               tag (atom lmp) ! nat (map_atom (atom lmp) t) = t"
    and sc: "lammps_scatter_atoms lmp name type count (snd (res ! r)) = Some (ws, lmp')"
  shows "ws = [] \<and> lmp' = lmp"
proof -
  let ?mp = "map_atom (atom lmp)" and ?data = "snd (res ! r)"
  let ?c = "nat count"
  have stq: "gather_stage lmp name type count = Some (Staged (copies ! r))"
    unfolding lmp by (rule stage_of_rank[OF st r])
  from gather_stage_accepts[OF stq]
  have acc: "tag_enable (atom lmp) \<noteq> 0" "tag_consecutive (atom lmp) \<noteq> 0"
    "sint (natoms (atom lmp)) \<le> MAXSMALLINT"
    by blast+
  from owned_of_staged[OF stq cnt]
  obtain f where f: "extract_atom (atom lmp) name = Some f"
    and o: "owned lmp name = zip (owned_tags lmp) (rows f)"
    and lo: "length (owned_tags lmp) = nat (nlocal (atom lmp))"
    and se: "staging_effect (tag (atom lmp)) (nat (nlocal (atom lmp))) count (column type)
               (zero_of type) (rows f) (elems (copies ! r))"
    by blast
  have nlr: "nat (nlocal (atom lmp)) \<le> length (rows f)"
    using staging_effect_bounds[OF se] by simp
  from scatter_atoms_effect[OF sc acc ms f cnt N]
  obtain f' where ws: "ws = []" and l': "lmp' = store lmp name f'"
    and sh: "same_shape f f'"
    and eff: "scatter_effect ?mp N count (rows f) (rows f') (elems ?data)"
    by blast
  have len: "length (rows f') = length (rows f)"
    and unt: "\<And>m. m < length (rows f) \<Longrightarrow> \<forall>t\<in>{1..N}. ?mp t \<noteq> int m \<Longrightarrow>
                rows f' ! m = rows f ! m"
    and cop: "\<And>t. t \<in> {1..N} \<Longrightarrow> 0 \<le> ?mp t \<Longrightarrow> \<forall>t'\<in>{t<..N}. ?mp t' \<noteq> ?mp t \<Longrightarrow>
        take ?c (rows f' ! nat (?mp t)) = take ?c (drop (nat (count * (t - 1))) (elems ?data)) \<and>
        drop ?c (rows f' ! nat (?mp t)) = drop ?c (rows f ! nat (?mp t))"
    using eff unfolding scatter_effect_def by blast+
  have col: "column type c = c" if "0 \<le> c" "c < count" for c
    using noslip that by (auto simp: column_def)
  have row_eq: "rows f' ! m = rows f ! m" if m: "m < length (rows f)" for m
  proof (cases "\<forall>t\<in>{1..N}. ?mp t \<noteq> int m")
    case True
    then show ?thesis using unt[OF m] by simp
  next
    case False
    then obtain t0 where t0: "t0 \<in> {1..N}" "?mp t0 = int m" by blast
    from last_resolving_tag[of t0 N ?mp "int m", OF t0]
    obtain t where t: "t \<in> {1..N}" and mt: "?mp t = int m"
      and last: "\<forall>t'\<in>{t<..N}. ?mp t' \<noteq> int m"
      by blast
    have m0: "0 \<le> ?mp t" and nm: "nat (?mp t) = m" using mt by simp_all
    have ml: "m < nat (nlocal (atom lmp))" and tg: "tag (atom lmp) ! m = t"
      using mp t m0 nm by auto
    have "(owned_tags lmp ! m, rows f ! m) \<in> set (zip (owned_tags lmp) (rows f))"
      using ml lo m by (auto simp: in_set_zip intro!: exI[of _ m])
    moreover have "owned_tags lmp ! m = t" using ml tg by (simp add: owned_tags_def)
    ultimately have "(t, rows f ! m) \<in> set (owned lmp name)" using o by simp
    moreover have "world ! r \<in> set world" using r by simp
    ultimately have row: "(t, rows f ! m) \<in> set (atoms_of world name)"
      unfolding atoms_of_def lmp by (auto simp: case_prod_beta)
    have tN: "1 \<le> t" "t \<le> sint (lammps_get_natoms (fst (world ! r)))"
      using t N lmp by simp_all
    have lay: "nat (count * (t - 1) + c) < length (elems ?data) \<and>
               c < int (length (rows f ! m)) \<and>
               elems ?data ! nat (count * (t - 1) + c) = rows f ! m ! nat c"
      if c: "0 \<le> c" "c < count" for c
      using gather_layout_by_tag[OF ret st cnt r d ord row tN c] col[OF c] c(1) by auto
    have c1: "0 \<le> count - 1" "count - 1 < count" using cnt by simp_all
    have "count - 1 < int (length (rows f ! m))" using lay[OF c1] by blast
    then have lrow: "?c \<le> length (rows f ! m)" by linarith
    have off0: "0 \<le> count * (t - 1)" using cnt tN(1) by simp
    have ldat: "nat (count * (t - 1)) + ?c \<le> length (elems ?data)"
    proof -
      have "nat (count * (t - 1) + (count - 1)) < length (elems ?data)"
        using lay[OF c1] by blast
      moreover have "nat (count * (t - 1) + (count - 1)) = nat (count * (t - 1)) + ?c - 1"
        using off0 cnt by (simp add: nat_add_distrib nat_diff_distrib)
      ultimately show ?thesis using cnt by simp
    qed
    have "take ?c (drop (nat (count * (t - 1))) (elems ?data)) = take ?c (rows f ! m)"
    proof (rule nth_equalityI)
      show "length (take ?c (drop (nat (count * (t - 1))) (elems ?data))) =
            length (take ?c (rows f ! m))"
        using ldat lrow by simp
    next
      fix j assume "j < length (take ?c (drop (nat (count * (t - 1))) (elems ?data)))"
      then have j: "j < ?c" by simp
      then have jc: "0 \<le> int j" "int j < count" by simp_all
      have "nat (count * (t - 1) + int j) = nat (count * (t - 1)) + j"
        using off0 by (simp add: nat_add_distrib)
      moreover have "elems ?data ! nat (count * (t - 1) + int j) = rows f ! m ! nat (int j)"
        using lay[OF jc] by blast
      ultimately have "elems ?data ! (nat (count * (t - 1)) + j) = rows f ! m ! j"
        by simp
      then show "take ?c (drop (nat (count * (t - 1))) (elems ?data)) ! j =
                 take ?c (rows f ! m) ! j"
        using j ldat by simp
    qed
    moreover have "\<forall>t'\<in>{t<..N}. ?mp t' \<noteq> ?mp t" using last mt by simp
    ultimately have "take ?c (rows f' ! m) = take ?c (rows f ! m)"
      and "drop ?c (rows f' ! m) = drop ?c (rows f ! m)"
      using cop[OF t m0] nm by simp_all
    then show ?thesis by (metis append_take_drop_id)
  qed
  have "rows f = rows f'"
    by (rule nth_equalityI) (use len row_eq in simp_all)
  then have "f' = f" using rows_same_shape[OF sh] by simp
  then show ?thesis using ws l' store_same[OF f] by simp
qed

lemma gather_scatter_round_trip_example:
  "lammps_scatter_atoms (fst (two_ranks 2 ! 0)) ''x'' 1 3
     (DoubleData [dbl 4, dbl 5, dbl 6, dbl 1, dbl 2, dbl 3, dbl 9]) =
   Some ([], fst (two_ranks 2 ! 0))"
proof -
  let ?res = "[([] :: string list, DoubleData [dbl 4, dbl 5, dbl 6, dbl 1, dbl 2, dbl 3, dbl 9]),
               ([], DoubleData [dbl 4, dbl 5, dbl 6, dbl 1, dbl 2, dbl 3])]"
  let ?lmp = "fst (two_ranks 2 ! 0)"
  note z = ordinary_dbl[THEN plus_double_zero(1)] ordinary_dbl[THEN plus_double_zero(2)]
  have ret: "lammps_gather_atoms (two_ranks 2) ''x'' 1 3 = Returned ?res"
    by (simp add: ev two_ranks_def eval_nat_numeral z)
  have st: "map (\<lambda>(lmp, data). gather_stage lmp ''x'' 1 3) (two_ranks 2) =
              map (\<lambda>c. Some (Staged c))
                [DoubleData [0, 0, 0, dbl 1, dbl 2, dbl 3], DoubleData [dbl 4, dbl 5, dbl 6, 0, 0, 0]]"
    by (simp add: ev two_ranks_def eval_nat_numeral)
  have a: "atoms_of (two_ranks 2) ''x'' =
      [(2, [F64 (dbl 1), F64 (dbl 2), F64 (dbl 3)]), (1, [F64 (dbl 4), F64 (dbl 5), F64 (dbl 6)])]"
    by (simp add: atoms_of_def owned_def owned_tags_def two_ranks_def rank_def)
  have d: "distinct (map fst (atoms_of (two_ranks 2) ''x''))" unfolding a by simp
  have ord: "\<forall>(t, row)\<in>set (atoms_of (two_ranks 2) ''x''). list_all ordinary_number row"
    unfolding a by (simp add: ordinary_dbl)
  obtain ws lmp' where sc: "lammps_scatter_atoms ?lmp ''x'' 1 3 (snd (?res ! 0)) = Some (ws, lmp')"
    by (simp add: ev two_ranks_def eval_nat_numeral)
  have N: "2 = sint (lammps_get_natoms ?lmp)"
    by (simp add: two_ranks_def rank_def lammps_get_natoms_def MAXSMALLINT_def
        static_cast_int_def)
  have "ws = [] \<and> lmp' = ?lmp"
    by (rule gather_scatter_round_trip[OF ret st _ _ d ord _ refl _ N _ sc])
       (simp_all add: two_ranks_def rank_def)
  then show ?thesis using sc by simp
qed
subsection \<open>Where the source departs from the specification\<close>

text \<open>
  C1. The specification places component \<open>c\<close> of the atom with tag \<open>t\<close> at offset
  \<open>count * (t - 1) + c\<close>, for integer and double properties alike. The double path does
  so, and so does either path for \<open>count = 1\<close> (lemma \<open>gather_layout_without_slip\<close>, for
  values other than NaNs and the negative zero). The
  integer path with \<open>count = 3\<close> reads \<^verbatim>\<open>array[i][0]\<close> in every iteration of its inner
  loop: one rank with the single atom \<open>(1, 2, 3)\<close> gathers \<open>(1, 1, 1)\<close> from integer
  storage and \<open>(1, 2, 3)\<close> from double storage.
\<close>

theorem gather_int_array_component_0:
  "lammps_gather_atoms
     [(rank 0 1 [1] ''x'' (IntArray [[1, 2, 3]]) (\<lambda>t. if t = 1 then 0 else - 1),
       IntData [0, 0, 0])] ''x'' 0 3 =
   Returned [([], IntData [1, 1, 1])] \<and>
   lammps_gather_atoms
     [(rank 0 1 [1] ''x'' (DoubleArray [[dbl 1, dbl 2, dbl 3]]) (\<lambda>t. if t = 1 then 0 else - 1),
       DoubleData (replicate 3 0))] ''x'' 1 3 =
   Returned [([], DoubleData [dbl 1, dbl 2, dbl 3])]"
  by (simp add: ev eval_nat_numeral)

text \<open>
  C2. The specification says that a gather followed by a scatter of the same buffer leaves the
  storage of every rank unchanged. That holds on the double path and for \<open>count = 1\<close>
  (lemma \<open>gather_scatter_round_trip\<close>). On the integer path with \<open>count = 3\<close> the gather
  returns component 0 three times for each atom, and the scatter writes that into the
  storage: the rows \<open>(1, 2, 3)\<close> and \<open>(4, 5, 6)\<close> become \<open>(1, 1, 1)\<close> and \<open>(4, 4, 4)\<close>.
\<close>

theorem gather_scatter_int_array_changes_storage:
  "lammps_gather_atoms [(int3_rank, IntData [0, 0, 0, 0, 0, 0])] ''x'' 0 3 =
     Returned [([], IntData [4, 4, 4, 1, 1, 1])] \<and>
   lammps_scatter_atoms int3_rank ''x'' 0 3 (IntData [4, 4, 4, 1, 1, 1]) =
     Some ([], store int3_rank ''x'' (IntArray [[1, 1, 1], [4, 4, 4]])) \<and>
   extract_atom (atom int3_rank) ''x'' = Some (IntArray [[1, 2, 3], [4, 5, 6]])"
  by (simp add: ev int3_rank_def eval_nat_numeral)

text \<open>
  C4. The specification says that every warning of gather and scatter, the one for an unknown
  property name included, is printed by rank 0 only. The warning for an unknown name is
  printed without looking at the rank: in a world of two ranks both print it, in gather
  and in scatter.
\<close>

theorem unknown_name_warning_on_every_rank:
  "lammps_gather_atoms (two_ranks 2) ''y'' 1 3 =
     Returned [([''lammps_gather_atoms: unknown property name''], DoubleData (replicate 7 (dbl 9))),
               ([''lammps_gather_atoms: unknown property name''], DoubleData (replicate 6 0))] \<and>
   map (\<lambda>(lmp, data). lammps_scatter_atoms lmp ''y'' 1 3 data) (two_ranks 2) =
     [Some ([''lammps_scatter_atoms: unknown property name''], fst (two_ranks 2 ! 0)),
      Some ([''lammps_scatter_atoms: unknown property name''], fst (two_ranks 2 ! 1))]"
  by (simp add: ev two_ranks_def)


text \<open>
  C5. The specification says that every element of the result is the sum of the staged
  contributions of all ranks, so that with disjoint partitions the result is the
  value held by the single owner. The first holds (lemma \<open>gather_Returned\<close>), and on the
  double path and for \<open>count = 1\<close> the sum is the owner's value (lemma
  \<open>gather_layout_without_slip\<close>). On the integer path with \<open>count = 3\<close> the owner stages
  component 0 three times: two ranks that own the atoms \<open>(1, 2, 3)\<close> and \<open>(4, 5, 6)\<close>, a
  disjoint partition, stage \<open>(0, 0, 0, 1, 1, 1)\<close> and \<open>(4, 4, 4, 0, 0, 0)\<close>, and every
  rank receives \<open>(4, 4, 4, 1, 1, 1)\<close>, not the owners' values.
\<close>

theorem gather_disjoint_int_array_not_owner_values:
  "atoms_of int3_world ''x'' = [(2, [I32 1, I32 2, I32 3]), (1, [I32 4, I32 5, I32 6])] \<and>
   map (\<lambda>(lmp, data). gather_stage lmp ''x'' 0 3) int3_world =
     [Some (Staged (IntData [0, 0, 0, 1, 1, 1])), Some (Staged (IntData [4, 4, 4, 0, 0, 0]))] \<and>
   lammps_gather_atoms int3_world ''x'' 0 3 =
     Returned [([], IntData [4, 4, 4, 1, 1, 1]), ([], IntData [4, 4, 4, 1, 1, 1])]"
  by (simp add: ev int3_world_def eval_nat_numeral atoms_of_def owned_def owned_tags_def)
end
